theory Spec2Isabelle
  imports Complex_Main "HOL-Library.List_Lexorder" "HOL-Library.Char_ord" "HOL-Library.AList"
begin

section \<open>Data model (src/types)\<close>

text \<open>
  JavaScript numbers are modelled as reals: the finite values, with exact arithmetic.
  Dates are the strings the code carries; \<open>\<le>\<close> and \<open><\<close> on strings are the
  lexicographic order on character codes, which is what the comparison operators of the
  source compute on strings.
\<close>

datatype TradeType = Buy | Sell

record Trade =
  trade_id :: string
  trade_ticker :: string
  trade_date :: string
  trade_shares :: real
  trade_price :: "real option"
  trade_type :: TradeType

datatype CashFlowType = Deposit | Dividend | Capgain | Interest

record CashFlow =
  cf_id :: string
  cf_date :: string
  cf_amount :: real
  cf_type :: CashFlowType
  cf_ticker :: "string option"

record StockPrice =
  sp_date :: string
  sp_price :: real
  sp_high :: "real option"

record StockSplit =
  split_date :: string
  split_ticker :: string
  splitFactor :: real

record PortfolioDataPoint =
  dp_date :: string
  portfolioValue :: real
  counterfactualValue :: real
  costBasis :: real
  portfolioReturn :: real
  counterfactualReturn :: real

record StockBreakdownData =
  bd_ticker :: string
  bd_shares :: real
  buyDate :: string
  buyPrice :: real
  currentPrice :: real
  currentValue :: real
  spyShares :: real
  spyCurrentValue :: real
  gain :: real
  spyGain :: real
  difference :: real

section \<open>Failures\<close>

text \<open>
  \<open>TypeError\<close> is the exception of reading a property of \<open>undefined\<close>, which an array
  read out of range followed by a field access raises. \<open>NonFinite\<close> is no exception of
  the language: it marks a division whose divisor is zero, where the source would
  produce \<open>NaN\<close> or \<open>Infinity\<close> from finite operands.
\<close>

datatype js_error = TypeError | NonFinite

definition bindE :: "js_error + 'a \<Rightarrow> ('a \<Rightarrow> js_error + 'b) \<Rightarrow> js_error + 'b" where
  "bindE m f = (case m of Inl e \<Rightarrow> Inl e | Inr v \<Rightarrow> f v)"

definition elemAt :: "'a list \<Rightarrow> int \<Rightarrow> js_error + 'a" where
  "elemAt xs i = (if 0 \<le> i \<and> i < int (length xs) then Inr (xs ! nat i) else Inl TypeError)"

definition jsDiv :: "real \<Rightarrow> real \<Rightarrow> js_error + real" where
  "jsDiv a b = (if b = 0 then Inl NonFinite else Inr (a / b))"

fun mapE :: "('a \<Rightarrow> js_error + 'b) \<Rightarrow> 'a list \<Rightarrow> js_error + 'b list" where
  "mapE f [] = Inr []"
| "mapE f (x # xs) = bindE (f x) (\<lambda>y. bindE (mapE f xs) (\<lambda>ys. Inr (y # ys)))"

text \<open>\<open>Math.round(x * 100) / 100\<close>; \<open>Math.round\<close> rounds a half towards plus infinity.\<close>

definition mathRound :: "real \<Rightarrow> real" where
  "mathRound x = of_int \<lfloor>x + 1 / 2\<rfloor>"

definition round2 :: "real \<Rightarrow> real" where
  "round2 x = mathRound (x * 100) / 100"

section \<open>The arithmetic of doubles\<close>

text \<open>
  Where a property depends on rounding or overflow, the functions are also given in the
  arithmetic of the source: a number is a finite double, an infinity or \<open>NaN\<close>, and an
  operation on finite operands returns the exact result rounded to the nearest double,
  ties to even, with 53 significant bits and exponents from -1022, or an infinity when the
  rounded result reaches \<open>2^1024\<close>. The sign of zero is not kept. A finite input field
  (a real in the records) is read as the double it is.
\<close>

datatype jsnum = Fin real | PInf | NInf | NaN

definition pow2 :: "int \<Rightarrow> real" where
  "pow2 e = (if 0 \<le> e then 2 ^ nat e else 1 / 2 ^ nat (- e))"

definition roundHalfEven :: "real \<Rightarrow> int" where
  "roundHalfEven z =
     (let n = \<lfloor>z\<rfloor>; r = z - of_int n in
      if r < 1 / 2 then n else if 1 / 2 < r then n + 1 else if even n then n else n + 1)"

definition binExp :: "real \<Rightarrow> int" where
  "binExp x = max \<lfloor>log 2 \<bar>x\<bar>\<rfloor> (- 1022)"

definition dblR :: "real \<Rightarrow> real" where
  "dblR x =
     (if x = 0 then 0
      else of_int (roundHalfEven (x / pow2 (binExp x - 52))) * pow2 (binExp x - 52))"

definition dbl :: "real \<Rightarrow> jsnum" where
  "dbl x =
     (let y = dblR x in
      if 2 ^ 1024 \<le> y then PInf else if y \<le> - (2 ^ 1024) then NInf else Fin y)"

definition infOf :: "real \<Rightarrow> jsnum" where
  "infOf s = (if 0 < s then PInf else if s < 0 then NInf else NaN)"

definition signOf :: "jsnum \<Rightarrow> real" where
  "signOf a = (case a of Fin x \<Rightarrow> sgn x | PInf \<Rightarrow> 1 | NInf \<Rightarrow> - 1 | NaN \<Rightarrow> 0)"

definition jsMul :: "jsnum \<Rightarrow> jsnum \<Rightarrow> jsnum" where
  "jsMul a b =
     (if a = NaN \<or> b = NaN then NaN
      else case (a, b) of
             (Fin x, Fin y) \<Rightarrow> dbl (x * y)
           | _ \<Rightarrow> infOf (signOf a * signOf b))"

definition jsNeg :: "jsnum \<Rightarrow> jsnum" where
  "jsNeg a = (case a of Fin x \<Rightarrow> Fin (- x) | PInf \<Rightarrow> NInf | NInf \<Rightarrow> PInf | NaN \<Rightarrow> NaN)"

definition jsAdd :: "jsnum \<Rightarrow> jsnum \<Rightarrow> jsnum" where
  "jsAdd a b =
     (if a = NaN \<or> b = NaN then NaN
      else case (a, b) of
             (Fin x, Fin y) \<Rightarrow> dbl (x + y)
           | (Fin x, _) \<Rightarrow> b
           | (_, Fin y) \<Rightarrow> a
           | _ \<Rightarrow> (if a = b then a else NaN))"

definition jsSub :: "jsnum \<Rightarrow> jsnum \<Rightarrow> jsnum" where
  "jsSub a b = jsAdd a (jsNeg b)"

definition jsDivide :: "jsnum \<Rightarrow> jsnum \<Rightarrow> jsnum" where
  "jsDivide a b =
     (if a = NaN \<or> b = NaN then NaN
      else case (a, b) of
             (Fin x, Fin y) \<Rightarrow> (if y = 0 then infOf x else dbl (x / y))
           | (Fin x, _) \<Rightarrow> Fin 0
           | (_, Fin y) \<Rightarrow> infOf (signOf a * (if y < 0 then - 1 else 1))
           | _ \<Rightarrow> NaN)"

definition jsGt :: "jsnum \<Rightarrow> jsnum \<Rightarrow> bool" where
  "jsGt a b =
     (case (a, b) of
        (NaN, _) \<Rightarrow> False
      | (_, NaN) \<Rightarrow> False
      | (Fin x, Fin y) \<Rightarrow> y < x
      | (PInf, PInf) \<Rightarrow> False
      | (PInf, _) \<Rightarrow> True
      | (_, NInf) \<Rightarrow> a \<noteq> NInf
      | _ \<Rightarrow> False)"

definition jsMax :: "jsnum \<Rightarrow> jsnum \<Rightarrow> jsnum" where
  "jsMax a b = (if a = NaN \<or> b = NaN then NaN else if jsGt b a then b else a)"

definition jsRound :: "jsnum \<Rightarrow> jsnum" where
  "jsRound a = (case a of Fin x \<Rightarrow> Fin (of_int \<lfloor>x + 1 / 2\<rfloor>) | _ \<Rightarrow> a)"

definition round2D :: "jsnum \<Rightarrow> jsnum" where
  "round2D x = jsDivide (jsRound (jsMul x (Fin 100))) (Fin 100)"

section \<open>The Date constructor on date-only ISO strings\<close>

text \<open>
  \<open>new Date(s)\<close> on a string of the form YYYY-MM-DD naming a day of the calendar is
  midnight UTC of that day, in milliseconds since 1970-01-01. Every other string is
  outside the data model (dates are YYYY-MM-DD); it is read here as an invalid date,
  whose time value is \<open>NaN\<close> and which every comparison answers with false.
\<close>

definition isDigit :: "char \<Rightarrow> bool" where
  "isDigit c = (CHR ''0'' \<le> c \<and> c \<le> CHR ''9'')"

definition digitVal :: "char \<Rightarrow> nat" where
  "digitVal c = of_char c - 48"

definition isLeap :: "nat \<Rightarrow> bool" where
  "isLeap y = ((y mod 4 = 0 \<and> y mod 100 \<noteq> 0) \<or> y mod 400 = 0)"

definition daysInMonth :: "nat \<Rightarrow> nat \<Rightarrow> nat" where
  "daysInMonth y m =
     (if m = 2 then (if isLeap y then 29 else 28)
      else if m = 4 \<or> m = 6 \<or> m = 9 \<or> m = 11 then 30 else 31)"

definition daysBeforeYear :: "nat \<Rightarrow> nat" where
  "daysBeforeYear y = 365 * y + (y + 3) div 4 - (y + 99) div 100 + (y + 399) div 400"

definition daysBeforeMonth :: "nat \<Rightarrow> nat \<Rightarrow> nat" where
  "daysBeforeMonth y m =
     [0, 31, 59, 90, 120, 151, 181, 212, 243, 273, 304, 334] ! (m - 1)
       + (if isLeap y \<and> 2 < m then 1 else 0)"

definition validYMD :: "nat \<times> nat \<times> nat \<Rightarrow> bool" where
  "validYMD k = (case k of (y, m, d) \<Rightarrow> 1 \<le> m \<and> m \<le> 12 \<and> 1 \<le> d \<and> d \<le> daysInMonth y m)"

text \<open>The days from 0000-01-01 to the given day; 1970-01-01 is day 719528.\<close>

definition dayNumber :: "nat \<times> nat \<times> nat \<Rightarrow> nat" where
  "dayNumber k = (case k of (y, m, d) \<Rightarrow> daysBeforeYear y + daysBeforeMonth y m + (d - 1))"

definition epochMillis :: "nat \<times> nat \<times> nat \<Rightarrow> int" where
  "epochMillis k = (int (dayNumber k) - 719528) * 86400000"

fun parseYMD :: "string \<Rightarrow> (nat \<times> nat \<times> nat) option" where
  "parseYMD [y1, y2, y3, y4, h1, m1, m2, h2, d1, d2] =
     (if list_all isDigit [y1, y2, y3, y4, m1, m2, d1, d2] \<and> h1 = CHR ''-'' \<and> h2 = CHR ''-''
      then Some (1000 * digitVal y1 + 100 * digitVal y2 + 10 * digitVal y3 + digitVal y4,
                 10 * digitVal m1 + digitVal m2,
                 10 * digitVal d1 + digitVal d2)
      else None)"
| "parseYMD _ = None"

definition newDate :: "string \<Rightarrow> int option" where
  "newDate s =
     (case parseYMD s of
        None \<Rightarrow> None
      | Some k \<Rightarrow> (if validYMD k then Some (epochMillis k) else None))"

text \<open>\<open>a <= b\<close> on two Date objects compares their time values; \<open>NaN\<close> compares false.\<close>

definition dateLe :: "int option \<Rightarrow> int option \<Rightarrow> bool" where
  "dateLe a b = (case (a, b) of (Some x, Some y) \<Rightarrow> x \<le> y | _ \<Rightarrow> False)"

definition isISODate :: "string \<Rightarrow> bool" where
  "isISODate s = (newDate s \<noteq> None)"

section \<open>Price lookups (stockApi.ts)\<close>

definition getLatestPrice :: "StockPrice list \<Rightarrow> js_error + real" where
  "getLatestPrice prices =
     (if length prices > 0
      then bindE (elemAt prices (int (length prices) - 1)) (\<lambda>p. Inr (sp_price p))
      else Inr 0)"

text \<open>
  The backward scan of \<open>findPriceOnDate\<close>: \<open>scanBack prices t n\<close> is the loop at
  \<open>i = n - 1\<close>, so that \<open>i >= 0\<close> is \<open>n > 0\<close>; \<open>None\<close> is falling out of the loop.
\<close>

fun scanBack :: "StockPrice list \<Rightarrow> int option \<Rightarrow> nat \<Rightarrow> js_error + StockPrice option" where
  "scanBack prices targetDate 0 = Inr None"
| "scanBack prices targetDate (Suc i) =
     bindE (elemAt prices (int i)) (\<lambda>p.
       if dateLe (newDate (sp_date p)) targetDate then Inr (Some p)
       else scanBack prices targetDate i)"

definition findPriceOnDate :: "StockPrice list \<Rightarrow> string \<Rightarrow> js_error + StockPrice option" where
  "findPriceOnDate prices date =
     (let targetDate = newDate date in
      bindE (scanBack prices targetDate (length prices)) (\<lambda>found.
        case found of
          Some p \<Rightarrow> Inr (Some p)
        | None \<Rightarrow> (if length prices > 0
                    then bindE (elemAt prices 0) (\<lambda>p. Inr (Some p)) else Inr None)))"

definition getPriceOnDate :: "StockPrice list \<Rightarrow> string \<Rightarrow> js_error + real option" where
  "getPriceOnDate prices date =
     bindE (findPriceOnDate prices date) (\<lambda>entry. Inr (map_option sp_price entry))"

section \<open>Binary-search lookup and split adjustment (calculations.ts)\<close>

text \<open>
  The loop of \<open>getPriceOnOrBefore\<close> and of \<open>getUnadjustedPriceOnOrBefore\<close>, which differ
  in what they remember of the entry found: \<open>pick\<close> is the price for the first, the
  price and the date for the second.
\<close>

function bsearch ::
  "(StockPrice \<Rightarrow> 'r) \<Rightarrow> StockPrice list \<Rightarrow> string \<Rightarrow> int \<Rightarrow> int \<Rightarrow> 'r option \<Rightarrow> js_error + 'r option"
where
  "bsearch pick prices targetDate left right result =
     (if left \<le> right then
        (let mid = (left + right) div 2 in
         bindE (elemAt prices mid) (\<lambda>p.
           if sp_date p \<le> targetDate
           then bsearch pick prices targetDate (mid + 1) right (Some (pick p))
           else bsearch pick prices targetDate left (mid - 1) result))
      else Inr result)"
  by pat_completeness auto
termination
  by (relation "measure (\<lambda>(pick, prices, targetDate, left, right, result). nat (right - left + 1))")
     auto

declare bsearch.simps [simp del]

definition getPriceOnOrBefore :: "StockPrice list \<Rightarrow> string \<Rightarrow> js_error + real option" where
  "getPriceOnOrBefore prices targetDate =
     (if length prices = 0 then Inr None
      else bindE (bsearch sp_price prices targetDate 0 (int (length prices) - 1) None) (\<lambda>result.
        case result of
          Some r \<Rightarrow> Inr (Some r)
        | None \<Rightarrow> (if length prices > 0
                    then bindE (elemAt prices 0) (\<lambda>p. Inr (Some (sp_price p))) else Inr None)))"

text \<open>
  \<open>for (const split of splits) if (split.date > priceDate) factor *= split.splitFactor\<close>
\<close>

definition getSplitAdjustmentFactor :: "StockSplit list \<Rightarrow> string \<Rightarrow> real" where
  "getSplitAdjustmentFactor splits priceDate =
     foldl (\<lambda>factor split.
              if split_date split > priceDate then factor * splitFactor split else factor)
           1 splits"

text \<open>
  \<open>[...xs].sort((a, b) => a.date.localeCompare(b.date))\<close> sorts a fresh copy; the sort of
  the language is stable, and on dates of one shape \<open>localeCompare\<close> orders as \<open>\<le>\<close> does.
  It is the stable sort by the date key.
\<close>

definition buildUnadjustedPriceMap :: "StockPrice list \<Rightarrow> StockSplit list \<Rightarrow> (string \<rightharpoonup> real)" where
  "buildUnadjustedPriceMap prices splits =
     (let sortedSplits = sort_key split_date splits in
      foldl (\<lambda>m p. m(sp_date p \<mapsto> sp_price p * getSplitAdjustmentFactor sortedSplits (sp_date p)))
            Map.empty prices)"

definition getUnadjustedPriceOnOrBefore ::
  "StockPrice list \<Rightarrow> StockSplit list \<Rightarrow> string \<Rightarrow> js_error + real option" where
  "getUnadjustedPriceOnOrBefore prices splits targetDate =
     (if length prices = 0 then Inr None
      else
        (let sortedSplits = sort_key split_date splits in
         bindE (bsearch (\<lambda>p. (sp_price p, sp_date p)) prices targetDate 0
                  (int (length prices) - 1) None) (\<lambda>found.
         bindE (case found of
                  Some r \<Rightarrow> Inr (Some r)
                | None \<Rightarrow> (if length prices > 0
                            then bindE (elemAt prices 0) (\<lambda>p. Inr (Some (sp_price p, sp_date p)))
                            else Inr None)) (\<lambda>res.
           case res of
             None \<Rightarrow> Inr None
           | Some (resultPrice, resultDate) \<Rightarrow>
               Inr (Some (resultPrice * getSplitAdjustmentFactor sortedSplits resultDate))))))"

text \<open>The split adjustment in the arithmetic of doubles.\<close>

definition getSplitAdjustmentFactorD :: "StockSplit list \<Rightarrow> string \<Rightarrow> jsnum" where
  "getSplitAdjustmentFactorD splits priceDate =
     foldl (\<lambda>factor split.
              if split_date split > priceDate then jsMul factor (Fin (splitFactor split))
              else factor)
           (Fin 1) splits"

definition buildUnadjustedPriceMapD :: "StockPrice list \<Rightarrow> StockSplit list \<Rightarrow> (string \<rightharpoonup> jsnum)" where
  "buildUnadjustedPriceMapD prices splits =
     (let sortedSplits = sort_key split_date splits in
      foldl (\<lambda>m p. m(sp_date p \<mapsto>
                     jsMul (Fin (sp_price p)) (getSplitAdjustmentFactorD sortedSplits (sp_date p))))
            Map.empty prices)"

section \<open>The time-series engine\<close>

text \<open>
  A \<open>Record<string, T>\<close> that the code only reads by key is a map; one that it also
  iterates with \<open>Object.entries\<close> is an association list in insertion order, where
  \<open>AList.update\<close> overwrites a present key in place and appends an absent one, as
  assignment to a property does. (Tickers are upper-case symbols: keys that are array
  indices or properties of \<open>Object.prototype\<close> are outside the model.)
\<close>

definition tradeAmountOf :: "Trade \<Rightarrow> real" where
  "tradeAmountOf trade =
     trade_shares trade * (case trade_price trade of None \<Rightarrow> 0 | Some p \<Rightarrow> p)"

text \<open>What the first phase of \<open>calculatePortfolioTimeSeries\<close> computes and the day loop reads.\<close>

record run_env =
  sortedTrades :: "Trade list"
  priceMaps :: "string \<rightharpoonup> (string \<rightharpoonup> real)"
  env_stockPrices :: "string \<rightharpoonup> StockPrice list"
  env_splits :: "string \<rightharpoonup> StockSplit list"
  useCashFlowBasis :: bool
  sortedCashFlows :: "CashFlow list"
  sortedDeposits :: "CashFlow list"
  depositSpySharesByDate :: "string \<rightharpoonup> real"
  useDepositBasis :: bool
  tradeSpySharesChange :: "real list"

text \<open>The loop over \<open>sortedDeposits\<close> that fills \<open>depositSpySharesByDate\<close>.\<close>

fun depositLoop ::
  "StockPrice list \<Rightarrow> CashFlow list \<Rightarrow> real \<Rightarrow> (string \<rightharpoonup> real) \<Rightarrow> js_error + (string \<rightharpoonup> real)"
where
  "depositLoop spyPrices [] cumulativeDepositSpyShares m = Inr m"
| "depositLoop spyPrices (deposit # rest) cumulativeDepositSpyShares m =
     bindE (getPriceOnOrBefore spyPrices (cf_date deposit)) (\<lambda>spyPriceAtDeposit.
       case spyPriceAtDeposit of
         None \<Rightarrow> depositLoop spyPrices rest cumulativeDepositSpyShares m
       | Some v \<Rightarrow>
           if v = 0 then depositLoop spyPrices rest cumulativeDepositSpyShares m
           else bindE (jsDiv (cf_amount deposit) v) (\<lambda>q.
                  let c = cumulativeDepositSpyShares + q in
                  depositLoop spyPrices rest c (m(cf_date deposit \<mapsto> c))))"

definition tradeSpyShares :: "StockPrice list \<Rightarrow> Trade \<Rightarrow> js_error + real" where
  "tradeSpyShares spyPrices trade =
     (let tradeAmount = tradeAmountOf trade in
      bindE (getPriceOnOrBefore spyPrices (trade_date trade)) (\<lambda>spyPriceAtTrade.
        case spyPriceAtTrade of
          None \<Rightarrow> Inr 0
        | Some v \<Rightarrow>
            if v = 0 then Inr 0
            else bindE (jsDiv tradeAmount v) (\<lambda>spyShares.
                   Inr (if trade_type trade = Sell then - spyShares else spyShares))))"

definition buildPriceMaps ::
  "(string \<rightharpoonup> StockPrice list) \<Rightarrow> (string \<rightharpoonup> StockSplit list) \<Rightarrow> (string \<rightharpoonup> (string \<rightharpoonup> real))"
where
  "buildPriceMaps stockPrices splits =
     (\<lambda>ticker. case stockPrices ticker of
        None \<Rightarrow> None
      | Some prices \<Rightarrow>
          Some (buildUnadjustedPriceMap prices
                  (case splits ticker of None \<Rightarrow> [] | Some tickerSplits \<Rightarrow> tickerSplits)))"

definition prepare ::
  "Trade list \<Rightarrow> (string \<rightharpoonup> StockPrice list) \<Rightarrow> StockPrice list \<Rightarrow> CashFlow list \<Rightarrow>
   (string \<rightharpoonup> StockSplit list) \<Rightarrow> js_error + run_env"
where
  "prepare trades stockPrices spyPrices cashFlows splits =
     (let sortedTrades' = sort_key trade_date trades;
          priceMaps' = buildPriceMaps stockPrices splits;
          totalCashInflows = foldl (\<lambda>sum cf. sum + cf_amount cf) 0 cashFlows;
          useCashFlowBasis' = (totalCashInflows > 0);
          sortedCashFlows' = sort_key cf_date cashFlows;
          deposits = filter (\<lambda>cf. cf_type cf = Deposit) cashFlows;
          sortedDeposits' = sort_key cf_date deposits
      in
      bindE (depositLoop spyPrices sortedDeposits' 0 Map.empty) (\<lambda>depositSpySharesByDate'.
        let useDepositBasis' = (length deposits > 0) in
        bindE (mapE (tradeSpyShares spyPrices) sortedTrades') (\<lambda>tradeSpySharesChange'.
          Inr \<lparr> sortedTrades = sortedTrades',
                priceMaps = priceMaps',
                env_stockPrices = stockPrices,
                env_splits = splits,
                useCashFlowBasis = useCashFlowBasis',
                sortedCashFlows = sortedCashFlows',
                sortedDeposits = sortedDeposits',
                depositSpySharesByDate = depositSpySharesByDate',
                useDepositBasis = useDepositBasis',
                tradeSpySharesChange = tradeSpySharesChange' \<rparr>)))"

text \<open>The variables the day loop updates.\<close>

record day_state =
  sharesPerTicker :: "(string \<times> real) list"
  tradeIndex :: nat
  tradeBasedSpyShares :: real
  tradeCostBasis :: real
  dataPoints :: "PortfolioDataPoint list"

definition heldShares :: "(string \<times> real) list \<Rightarrow> string \<Rightarrow> real" where
  "heldShares held ticker =
     (case map_of held ticker of None \<Rightarrow> 0 | Some v \<Rightarrow> v)"

text \<open>
  A number array read out of range is \<open>undefined\<close>, and adding it gives \<open>NaN\<close>.
\<close>

definition numAt :: "real list \<Rightarrow> nat \<Rightarrow> js_error + real" where
  "numAt xs i = (if i < length xs then Inr (xs ! i) else Inl NonFinite)"

definition applyTrade :: "Trade \<Rightarrow> day_state \<Rightarrow> day_state" where
  "applyTrade trade st =
     (let tradeAmount = tradeAmountOf trade in
      if trade_type trade = Sell
      then st \<lparr> sharesPerTicker :=
                  AList.update (trade_ticker trade)
                    (heldShares (sharesPerTicker st) (trade_ticker trade) - trade_shares trade)
                    (sharesPerTicker st),
                tradeCostBasis := tradeCostBasis st - tradeAmount \<rparr>
      else st \<lparr> sharesPerTicker :=
                  AList.update (trade_ticker trade)
                    (heldShares (sharesPerTicker st) (trade_ticker trade) + trade_shares trade)
                    (sharesPerTicker st),
                tradeCostBasis := tradeCostBasis st + tradeAmount \<rparr>)"

text \<open>The \<open>while\<close> loop that applies the trades up to and including the current date.\<close>

function processTrades :: "run_env \<Rightarrow> string \<Rightarrow> day_state \<Rightarrow> js_error + day_state" where
  "processTrades env currentDate st =
     (if tradeIndex st < length (sortedTrades env)
         \<and> trade_date (sortedTrades env ! tradeIndex st) \<le> currentDate
      then
        (let trade = sortedTrades env ! tradeIndex st;
             st1 = applyTrade trade st in
         bindE (numAt (tradeSpySharesChange env) (tradeIndex st)) (\<lambda>change.
           processTrades env currentDate
             (st1 \<lparr> tradeBasedSpyShares := tradeBasedSpyShares st1 + change,
                    tradeIndex := Suc (tradeIndex st) \<rparr>)))
      else Inr st)"
  by pat_completeness auto
termination
  by (relation "measure (\<lambda>(env, currentDate, st). length (sortedTrades env) - tradeIndex st)")
     (auto simp: applyTrade_def Let_def)

declare processTrades.simps [simp del]

text \<open>The loop over \<open>Object.entries(sharesPerTicker)\<close> that sums the portfolio value.\<close>

fun portfolioValueLoop ::
  "run_env \<Rightarrow> string \<Rightarrow> (string \<times> real) list \<Rightarrow> real \<Rightarrow> js_error + real" where
  "portfolioValueLoop env currentDate [] value = Inr value"
| "portfolioValueLoop env currentDate ((ticker, shares) # rest) value =
     (if shares \<le> 0 then portfolioValueLoop env currentDate rest value
      else
        bindE (case (case priceMaps env ticker of None \<Rightarrow> None | Some priceMap \<Rightarrow> priceMap currentDate) of
                 Some v \<Rightarrow> Inr v
               | None \<Rightarrow>
                   bindE (getUnadjustedPriceOnOrBefore
                            (case env_stockPrices env ticker of None \<Rightarrow> [] | Some ps \<Rightarrow> ps)
                            (case env_splits env ticker of None \<Rightarrow> [] | Some ss \<Rightarrow> ss)
                            currentDate)
                     (\<lambda>r. Inr (case r of None \<Rightarrow> 0 | Some v \<Rightarrow> v))) (\<lambda>currentStockPrice.
          let tickerValue = shares * currentStockPrice in
          portfolioValueLoop env currentDate rest (value + tickerValue)))"

text \<open>The loop over \<open>sortedDeposits\<close> with its \<open>break\<close>, in deposit-basis mode.\<close>

fun depositScan :: "(string \<rightharpoonup> real) \<Rightarrow> string \<Rightarrow> CashFlow list \<Rightarrow> real \<Rightarrow> real" where
  "depositScan m currentDate [] counterfactualSpyShares = counterfactualSpyShares"
| "depositScan m currentDate (deposit # rest) counterfactualSpyShares =
     (if cf_date deposit > currentDate then counterfactualSpyShares
      else depositScan m currentDate rest
             (case m (cf_date deposit) of
                Some spySharesAtDate \<Rightarrow> spySharesAtDate
              | None \<Rightarrow> counterfactualSpyShares))"

definition dayCounterfactualSpyShares :: "run_env \<Rightarrow> string \<Rightarrow> day_state \<Rightarrow> real" where
  "dayCounterfactualSpyShares env currentDate st =
     (if useDepositBasis env
      then depositScan (depositSpySharesByDate env) currentDate (sortedDeposits env) 0
      else tradeBasedSpyShares st)"

definition dayCostBasis :: "run_env \<Rightarrow> string \<Rightarrow> day_state \<Rightarrow> real" where
  "dayCostBasis env currentDate st =
     (if useCashFlowBasis env
      then foldl (\<lambda>sum cf. sum + cf_amount cf) 0
             (filter (\<lambda>cf. cf_date cf \<le> currentDate) (sortedCashFlows env))
      else max 0 (tradeCostBasis st))"

text \<open>One iteration of \<open>for (const spyPrice of spyPrices)\<close>.\<close>

definition processDay :: "run_env \<Rightarrow> day_state \<Rightarrow> StockPrice \<Rightarrow> js_error + day_state" where
  "processDay env st spyPrice =
     (let currentDate = sp_date spyPrice in
      bindE (processTrades env currentDate st) (\<lambda>st1.
      bindE (portfolioValueLoop env currentDate (sharesPerTicker st1) 0) (\<lambda>portfolioValue'.
        let counterfactualSpyShares = dayCounterfactualSpyShares env currentDate st1;
            counterfactualValue' = max 0 counterfactualSpyShares * sp_price spyPrice;
            costBasis' = dayCostBasis env currentDate st1
        in
        if costBasis' > 0 then
          bindE (jsDiv (portfolioValue' - costBasis') costBasis') (\<lambda>q1.
          bindE (jsDiv (counterfactualValue' - costBasis') costBasis') (\<lambda>q2.
            let portfolioReturn' = q1 * 100;
                counterfactualReturn' = q2 * 100
            in
            Inr (st1 \<lparr> dataPoints := dataPoints st1 @
                   [\<lparr> dp_date = currentDate,
                      portfolioValue = round2 portfolioValue',
                      counterfactualValue = round2 counterfactualValue',
                      costBasis = round2 costBasis',
                      portfolioReturn = round2 portfolioReturn',
                      counterfactualReturn = round2 counterfactualReturn' \<rparr>] \<rparr>)))
        else Inr st1)))"

fun dayLoop :: "run_env \<Rightarrow> StockPrice list \<Rightarrow> day_state \<Rightarrow> js_error + day_state" where
  "dayLoop env [] st = Inr st"
| "dayLoop env (spyPrice # rest) st = bindE (processDay env st spyPrice) (dayLoop env rest)"

definition initialState :: day_state where
  "initialState =
     \<lparr> sharesPerTicker = [], tradeIndex = 0, tradeBasedSpyShares = 0, tradeCostBasis = 0,
       dataPoints = [] \<rparr>"

definition calculatePortfolioTimeSeries ::
  "Trade list \<Rightarrow> (string \<rightharpoonup> StockPrice list) \<Rightarrow> StockPrice list \<Rightarrow> CashFlow list \<Rightarrow>
   (string \<rightharpoonup> StockSplit list) \<Rightarrow> js_error + PortfolioDataPoint list"
where
  "calculatePortfolioTimeSeries trades stockPrices spyPrices cashFlows splits =
     (if length trades = 0 \<or> length spyPrices = 0 then Inr []
      else
        bindE (prepare trades stockPrices spyPrices cashFlows splits) (\<lambda>env.
        bindE (dayLoop env spyPrices initialState) (\<lambda>st. Inr (dataPoints st))))"

section \<open>The breakdown engine\<close>

record aggregate =
  totalShares :: real
  totalCost :: real
  totalSpyShares :: real
  firstBuyDate :: string

text \<open>
  One iteration of \<open>for (const trade of trades)\<close>. A ticker not yet in \<open>aggregated\<close>
  gets the entry with zero totals and \<open>firstBuyDate: trade.date\<close>; the entry is then
  updated, so the two assignments are one \<open>AList.update\<close> of the entry computed.
\<close>

definition aggregateTrade ::
  "StockPrice list \<Rightarrow> (string \<times> aggregate) list \<Rightarrow> Trade \<Rightarrow> js_error + (string \<times> aggregate) list"
where
  "aggregateTrade spyPrices aggregated trade =
     (let tradePrice = (case trade_price trade of None \<Rightarrow> 0 | Some p \<Rightarrow> p);
          tradeAmount = trade_shares trade * tradePrice in
      bindE (getPriceOnDate spyPrices (trade_date trade)) (\<lambda>spyPriceAtTrade.
      bindE (case spyPriceAtTrade of
               None \<Rightarrow> Inr 0
             | Some v \<Rightarrow> if v = 0 then Inr 0 else jsDiv tradeAmount v) (\<lambda>spySharesChange.
        let shares = trade_shares trade;
            entry = (case map_of aggregated (trade_ticker trade) of
                       None \<Rightarrow> \<lparr> totalShares = 0, totalCost = 0, totalSpyShares = 0,
                                 firstBuyDate = trade_date trade \<rparr>
                     | Some a \<Rightarrow> a)
        in
        if trade_type trade = Sell
        then Inr (AList.update (trade_ticker trade)
                    (entry \<lparr> totalShares := totalShares entry - shares,
                             totalCost := totalCost entry - tradeAmount,
                             totalSpyShares := totalSpyShares entry - spySharesChange \<rparr>)
                    aggregated)
        else Inr (AList.update (trade_ticker trade)
                    (entry \<lparr> totalShares := totalShares entry + shares,
                             totalCost := totalCost entry + tradeAmount,
                             totalSpyShares := totalSpyShares entry + spySharesChange,
                             firstBuyDate := (if trade_date trade < firstBuyDate entry
                                              then trade_date trade else firstBuyDate entry) \<rparr>)
                    aggregated))))"

fun aggregateTrades ::
  "StockPrice list \<Rightarrow> Trade list \<Rightarrow> (string \<times> aggregate) list \<Rightarrow> js_error + (string \<times> aggregate) list"
where
  "aggregateTrades spyPrices [] aggregated = Inr aggregated"
| "aggregateTrades spyPrices (trade # rest) aggregated =
     bindE (aggregateTrade spyPrices aggregated trade) (aggregateTrades spyPrices rest)"

text \<open>The loop over \<open>Object.entries(aggregated)\<close> that pushes the rows.\<close>

fun breakdownRows ::
  "(string \<rightharpoonup> StockPrice list) \<Rightarrow> real \<Rightarrow> (string \<times> aggregate) list \<Rightarrow>
   StockBreakdownData list \<Rightarrow> js_error + StockBreakdownData list"
where
  "breakdownRows stockPrices currentSpyPrice [] breakdown = Inr breakdown"
| "breakdownRows stockPrices currentSpyPrice ((ticker, d) # rest) breakdown =
     (if totalShares d \<le> 0 then breakdownRows stockPrices currentSpyPrice rest breakdown
      else
        (case stockPrices ticker of
           None \<Rightarrow> breakdownRows stockPrices currentSpyPrice rest breakdown
         | Some tickerPrices \<Rightarrow>
             if length tickerPrices = 0
             then breakdownRows stockPrices currentSpyPrice rest breakdown
             else
               bindE (getLatestPrice tickerPrices) (\<lambda>currentPrice'.
               let currentValue' = totalShares d * currentPrice';
                   spyCurrentValue' = max 0 (totalSpyShares d) * currentSpyPrice in
               bindE (if totalShares d > 0 then jsDiv (max 0 (totalCost d)) (totalShares d)
                      else Inr 0) (\<lambda>avgBuyPrice.
               let netInvestment = max 0 (totalCost d);
                   gain' = currentValue' - netInvestment;
                   spyGain' = spyCurrentValue' - netInvestment;
                   difference' = gain' - spyGain'
               in
               breakdownRows stockPrices currentSpyPrice rest
                 (breakdown @
                    [\<lparr> bd_ticker = ticker,
                       bd_shares = mathRound (totalShares d * 1000000) / 1000000,
                       buyDate = firstBuyDate d,
                       buyPrice = round2 avgBuyPrice,
                       currentPrice = currentPrice',
                       currentValue = round2 currentValue',
                       spyShares = round2 (max 0 (totalSpyShares d)),
                       spyCurrentValue = round2 spyCurrentValue',
                       gain = round2 gain',
                       spyGain = round2 spyGain',
                       difference = round2 difference' \<rparr>])))))"

text \<open>
  \<open>breakdown.sort((a, b) => b.difference - a.difference)\<close>: the stable sort, descending
  by \<open>difference\<close>, of the array the function has built itself.
\<close>

definition calculateStockBreakdown ::
  "Trade list \<Rightarrow> (string \<rightharpoonup> StockPrice list) \<Rightarrow> StockPrice list \<Rightarrow>
   js_error + StockBreakdownData list"
where
  "calculateStockBreakdown trades stockPrices spyPrices =
     bindE (getLatestPrice spyPrices) (\<lambda>currentSpyPrice.
     bindE (aggregateTrades spyPrices trades []) (\<lambda>aggregated.
     bindE (breakdownRows stockPrices currentSpyPrice aggregated []) (\<lambda>breakdown.
       Inr (sort_key (\<lambda>b. - difference b) breakdown))))"

section \<open>The summary engine\<close>

record 'n SummaryData =
  totalCostBasis :: 'n
  totalPortfolioValue :: 'n
  totalCounterfactualValue :: 'n
  sm_portfolioReturn :: 'n
  sm_counterfactualReturn :: 'n
  totalDifference :: 'n
  percentageDifference :: 'n
  bestPerformer :: "(string \<times> real) option"
  worstPerformer :: "(string \<times> real) option"

definition pickPerformers ::
  "StockBreakdownData \<times> StockBreakdownData \<Rightarrow> StockBreakdownData \<Rightarrow>
   StockBreakdownData \<times> StockBreakdownData" where
  "pickPerformers bw stock =
     (let best = (if difference stock > difference (fst bw) then stock else fst bw);
          worst = (if difference stock < difference (snd bw) then stock else snd bw)
      in (best, worst))"


text \<open>The summary engine in the arithmetic of doubles.\<close>

definition calculateSummaryD ::
  "StockBreakdownData list \<Rightarrow> CashFlow list \<Rightarrow> Trade list \<Rightarrow> js_error + jsnum SummaryData" where
  "calculateSummaryD breakdown cashFlows trades =
     (if length breakdown = 0
      then Inr \<lparr> totalCostBasis = Fin 0, totalPortfolioValue = Fin 0,
                 totalCounterfactualValue = Fin 0, sm_portfolioReturn = Fin 0,
                 sm_counterfactualReturn = Fin 0, totalDifference = Fin 0,
                 percentageDifference = Fin 0, bestPerformer = None, worstPerformer = None \<rparr>
      else
        (let net = foldl (\<lambda>sum t.
                     let amount = jsMul (Fin (trade_shares t))
                                    (Fin (case trade_price t of None \<Rightarrow> 0 | Some p \<Rightarrow> p)) in
                     jsAdd sum (if trade_type t = Sell then jsNeg amount else amount))
                   (Fin 0) trades;
             totalCostBasis' = jsMax (Fin 0) net;
             totalPortfolioValue' =
               foldl (\<lambda>sum b. jsAdd sum (Fin (currentValue b))) (Fin 0) breakdown;
             totalCounterfactualValue' =
               foldl (\<lambda>sum b. jsAdd sum (Fin (spyCurrentValue b))) (Fin 0) breakdown;
             portfolioReturn' =
               (if jsGt totalCostBasis' (Fin 0)
                then jsMul (jsDivide (jsSub totalPortfolioValue' totalCostBasis') totalCostBasis')
                       (Fin 100)
                else Fin 0);
             counterfactualReturn' =
               (if jsGt totalCostBasis' (Fin 0)
                then jsMul (jsDivide (jsSub totalCounterfactualValue' totalCostBasis')
                              totalCostBasis') (Fin 100)
                else Fin 0);
             totalDifference' = jsSub totalPortfolioValue' totalCounterfactualValue';
             percentageDifference' =
               (if jsGt totalCostBasis' (Fin 0)
                then jsMul (jsDivide totalDifference' totalCostBasis') (Fin 100)
                else Fin 0)
         in
         bindE (elemAt breakdown 0) (\<lambda>first.
         let (best, worst) = foldl pickPerformers (first, first) breakdown in
         Inr \<lparr> totalCostBasis = round2D totalCostBasis',
               totalPortfolioValue = round2D totalPortfolioValue',
               totalCounterfactualValue = round2D totalCounterfactualValue',
               sm_portfolioReturn = round2D portfolioReturn',
               sm_counterfactualReturn = round2D counterfactualReturn',
               totalDifference = round2D totalDifference',
               percentageDifference = round2D percentageDifference',
               bestPerformer = Some (bd_ticker best, difference best),
               worstPerformer = Some (bd_ticker worst, difference worst) \<rparr>)))"

section \<open>Notions used to state the properties\<close>

text \<open>The last entry of a series dated on or before a target, if there is one.\<close>

definition lastOnOrBefore :: "StockPrice list \<Rightarrow> string \<Rightarrow> StockPrice option" where
  "lastOnOrBefore prices t =
     (case filter (\<lambda>p. sp_date p \<le> t) prices of
        [] \<Rightarrow> None
      | x # xs \<Rightarrow> Some (last (x # xs)))"

text \<open>A series ascending by ISO date: every date is a calendar day, in ascending order.\<close>

definition ascendingISO :: "StockPrice list \<Rightarrow> bool" where
  "ascendingISO prices =
     (list_all (\<lambda>p. isISODate (sp_date p)) prices \<and> sorted (map sp_date prices))"

text \<open>What both lookups are to return on a series ascending by date.\<close>

definition onOrBeforeSpec :: "StockPrice list \<Rightarrow> string \<Rightarrow> real option" where
  "onOrBeforeSpec prices t =
     (case lastOnOrBefore prices t of
        Some p \<Rightarrow> Some (sp_price p)
      | None \<Rightarrow> (if prices = [] then None else Some (sp_price (hd prices))))"

definition yearLength :: "nat \<Rightarrow> nat" where
  "yearLength y = (if isLeap y then 366 else 365)"

definition ymdKey :: "nat \<times> nat \<times> nat \<Rightarrow> nat" where
  "ymdKey k = (case k of (y, m, d) \<Rightarrow> y * 10000 + m * 100 + d)"

text \<open>A row whose ticker has a non-empty entry in the price map.\<close>

definition pricedTicker :: "(string \<rightharpoonup> StockPrice list) \<Rightarrow> StockBreakdownData \<Rightarrow> bool" where
  "pricedTicker stockPrices row =
     (case stockPrices (bd_ticker row) of None \<Rightarrow> False | Some ps \<Rightarrow> ps \<noteq> [])"

text \<open>The cash a trade moves: positive for a buy, negative for a sell.\<close>

definition signedAmount :: "Trade \<Rightarrow> real" where
  "signedAmount t = (if trade_type t = Sell then - tradeAmountOf t else tradeAmountOf t)"

text \<open>How many trades of a list are dated on or before a day.\<close>

definition tradesThrough :: "Trade list \<Rightarrow> string \<Rightarrow> nat" where
  "tradesThrough ts d = length (filter (\<lambda>t. trade_date t \<le> d) ts)"

text \<open>
  The running totals of the day loop agree with the trades the cursor has passed.
\<close>

definition cursorInv :: "run_env \<Rightarrow> day_state \<Rightarrow> bool" where
  "cursorInv env st =
     (tradeCostBasis st = sum_list (map signedAmount (take (tradeIndex st) (sortedTrades env)))
      \<and> tradeBasedSpyShares st = sum_list (take (tradeIndex st) (tradeSpySharesChange env)))"

text \<open>
  The cost basis and the counterfactual index-share count of a day, as functions of the
  date alone: the expressions of \<open>dayCostBasis\<close> and \<open>dayCounterfactualSpyShares\<close> with the
  running totals replaced by the sums over the trades dated on or before the day.
\<close>

definition costBasisOf :: "run_env \<Rightarrow> string \<Rightarrow> real" where
  "costBasisOf env d =
     (if useCashFlowBasis env
      then foldl (\<lambda>sum cf. sum + cf_amount cf) 0
             (filter (\<lambda>cf. cf_date cf \<le> d) (sortedCashFlows env))
      else max 0 (sum_list (map signedAmount
                    (take (tradesThrough (sortedTrades env) d) (sortedTrades env)))))"

definition counterfactualSharesOf :: "run_env \<Rightarrow> string \<Rightarrow> real" where
  "counterfactualSharesOf env d =
     (if useDepositBasis env
      then depositScan (depositSpySharesByDate env) d (sortedDeposits env) 0
      else sum_list (take (tradesThrough (sortedTrades env) d) (tradeSpySharesChange env)))"

text \<open>
  The cost basis of a day in the words of the specification: in cash-flow-basis mode
  (the sum of all cash-flow amounts is positive) the sum of the cash-flow amounts dated
  on or before the day, otherwise the net cash of the trades dated on or before the day,
  floored at zero.
\<close>

definition costBasisOn :: "Trade list \<Rightarrow> CashFlow list \<Rightarrow> string \<Rightarrow> real" where
  "costBasisOn trades cashFlows d =
     (if 0 < sum_list (map cf_amount cashFlows)
      then sum_list (map cf_amount (filter (\<lambda>cf. cf_date cf \<le> d) cashFlows))
      else max 0 (sum_list (map signedAmount (filter (\<lambda>t. trade_date t \<le> d) trades))))"

text \<open>The fields of a data point that do not depend on the stock prices.\<close>

definition pointKey :: "PortfolioDataPoint \<Rightarrow> string \<times> real \<times> real" where
  "pointKey pt = (dp_date pt, counterfactualValue pt, costBasis pt)"

definition dayKey :: "run_env \<Rightarrow> StockPrice \<Rightarrow> string \<times> real \<times> real" where
  "dayKey env p =
     (sp_date p,
      round2 (max 0 (counterfactualSharesOf env (sp_date p)) * sp_price p),
      round2 (costBasisOf env (sp_date p)))"

text \<open>
  A day on which the index has a usable price (the on-or-before price is there and is
  not zero), and the index shares a deposit buys: its amount over the on-or-before
  index price of its date, nothing on a day without a usable price.
\<close>

definition pricedDay :: "StockPrice list \<Rightarrow> string \<Rightarrow> bool" where
  "pricedDay spyPrices d =
     (case onOrBeforeSpec spyPrices d of None \<Rightarrow> False | Some v \<Rightarrow> v \<noteq> 0)"

definition depositShares :: "StockPrice list \<Rightarrow> CashFlow \<Rightarrow> real" where
  "depositShares spyPrices deposit =
     (case onOrBeforeSpec spyPrices (cf_date deposit) of
        None \<Rightarrow> 0
      | Some v \<Rightarrow> if v = 0 then 0 else cf_amount deposit / v)"

definition sharesThrough :: "StockPrice list \<Rightarrow> CashFlow list \<Rightarrow> string \<Rightarrow> real" where
  "sharesThrough spyPrices deps d =
     sum_list (map (depositShares spyPrices) (filter (\<lambda>x. cf_date x \<le> d) deps))"

text \<open>What \<open>depositLoop\<close> leaves in the map, on deposits ascending by date.\<close>

definition depositMapSpec ::
  "StockPrice list \<Rightarrow> CashFlow list \<Rightarrow> real \<Rightarrow> (string \<rightharpoonup> real) \<Rightarrow> (string \<rightharpoonup> real)" where
  "depositMapSpec spyPrices deps c m0 =
     (\<lambda>d. if pricedDay spyPrices d \<and> d \<in> set (map cf_date deps)
          then Some (c + sharesThrough spyPrices deps d) else m0 d)"

text \<open>What \<open>depositScan\<close> holds after the deposits \<open>pre\<close>, all dated up to the current day.\<close>

definition scanValue :: "StockPrice list \<Rightarrow> CashFlow list \<Rightarrow> CashFlow list \<Rightarrow> real" where
  "scanValue spyPrices deps pre =
     (if filter (\<lambda>x. pricedDay spyPrices (cf_date x)) pre = [] then 0
      else sharesThrough spyPrices deps
             (cf_date (last (filter (\<lambda>x. pricedDay spyPrices (cf_date x)) pre))))"

text \<open>
  The index shares a trade stands for in trade-basis mode: its amount over the
  on-or-before index price of its date, negative for a sell, nothing on a day without a
  usable price.
\<close>

definition tradeSharesOf :: "StockPrice list \<Rightarrow> Trade \<Rightarrow> real" where
  "tradeSharesOf spyPrices t =
     (case onOrBeforeSpec spyPrices (trade_date t) of
        None \<Rightarrow> 0
      | Some v \<Rightarrow> if v = 0 then 0
                  else if trade_type t = Sell then - (tradeAmountOf t / v)
                  else tradeAmountOf t / v)"

text \<open>
  The cost basis and the counterfactual index-share count of a day under a given policy,
  in the words of the specification. In cash-flow-basis mode the cost basis is the sum of
  the cash-flow amounts dated on or before the day, in trade-basis mode the net cash of
  the trades dated on or before the day, floored at zero. In deposit-basis mode the share
  count is the sum of the shares bought by the deposits dated on or before the day, in
  trade-basis mode the sum of the shares of the trades dated on or before the day.
\<close>

definition dayCostBasisIn :: "bool \<Rightarrow> Trade list \<Rightarrow> CashFlow list \<Rightarrow> string \<Rightarrow> real" where
  "dayCostBasisIn cashFlowMode trades cashFlows d =
     (if cashFlowMode
      then sum_list (map cf_amount (filter (\<lambda>cf. cf_date cf \<le> d) cashFlows))
      else max 0 (sum_list (map signedAmount (filter (\<lambda>t. trade_date t \<le> d) trades))))"

definition dayIndexSharesIn ::
  "bool \<Rightarrow> Trade list \<Rightarrow> CashFlow list \<Rightarrow> StockPrice list \<Rightarrow> string \<Rightarrow> real" where
  "dayIndexSharesIn depositMode trades cashFlows spyPrices d =
     (if depositMode
      then sharesThrough spyPrices (filter (\<lambda>cf. cf_type cf = Deposit) cashFlows) d
      else sum_list (map (tradeSharesOf spyPrices) (filter (\<lambda>t. trade_date t \<le> d) trades)))"

text \<open>The net cash of the trades as the summary engine adds it up, in doubles.\<close>

definition netTradeCashD :: "Trade list \<Rightarrow> jsnum" where
  "netTradeCashD trades =
     foldl (\<lambda>sum t.
              let amount = jsMul (Fin (trade_shares t))
                             (Fin (case trade_price t of None \<Rightarrow> 0 | Some p \<Rightarrow> p)) in
              jsAdd sum (if trade_type t = Sell then jsNeg amount else amount))
           (Fin 0) trades"

section \<open>Failure-free evaluation of the helpers\<close>

lemma bindE_Inr [simp]: "bindE (Inr v) f = f v"
  by (simp add: bindE_def)

lemma bindE_Inl [simp]: "bindE (Inl e) f = Inl e"
  by (simp add: bindE_def)

lemma elemAt_in_range: "0 \<le> i \<Longrightarrow> i < int (length xs) \<Longrightarrow> elemAt xs i = Inr (xs ! nat i)"
  by (simp add: elemAt_def)

lemma elemAt_nat [simp]: "i < length xs \<Longrightarrow> elemAt xs (int i) = Inr (xs ! i)"
  by (simp add: elemAt_def)

lemma elemAt_0 [simp]: "xs \<noteq> [] \<Longrightarrow> elemAt xs 0 = Inr (hd xs)"
  by (cases xs) (simp_all add: elemAt_def)

lemma filter_eq_take:
  assumes "\<forall>i<l. P (xs ! i)" "\<forall>i. l \<le> i \<and> i < length xs \<longrightarrow> \<not> P (xs ! i)" "l \<le> length xs"
  shows "filter P xs = take l xs"
proof -
  have a: "filter P (take l xs) = take l xs"
    using assms by (auto simp: filter_id_conv in_set_conv_nth)
  have b: "filter P (drop l xs) = []"
    using assms by (auto simp: filter_empty_conv in_set_conv_nth)
  have "filter P xs = filter P (take l xs @ drop l xs)" by simp
  also have "\<dots> = take l xs" unfolding filter_append a b by simp
  finally show ?thesis .
qed

lemma bsearch_sorted:
  "sorted (map sp_date prices) \<Longrightarrow> 0 \<le> left \<Longrightarrow> right < int (length prices) \<Longrightarrow> left \<le> right + 1 \<Longrightarrow>
     (\<forall>i. i < nat left \<longrightarrow> sp_date (prices ! i) \<le> t) \<Longrightarrow>
     (\<forall>i. right < int i \<and> i < length prices \<longrightarrow> \<not> sp_date (prices ! i) \<le> t) \<Longrightarrow>
     result = (if left = 0 then None else Some (pick (prices ! (nat left - 1)))) \<Longrightarrow>
     bsearch pick prices t left right result = Inr (map_option pick (lastOnOrBefore prices t))"
proof (induction pick prices t left right result rule: bsearch.induct)
  case (1 pick prices t left right result)
  note srt = "1.prems"(1)
  note l0 = "1.prems"(2) and rlen = "1.prems"(3) and lr1 = "1.prems"(4)
  note below = "1.prems"(5) and above = "1.prems"(6) and res = "1.prems"(7)
  show ?case
  proof (cases "left \<le> right")
    case False
    with lr1 have lr: "left = right + 1" by linarith
    have flt: "filter (\<lambda>p. sp_date p \<le> t) prices = take (nat left) prices"
      using below above lr l0 rlen by (intro filter_eq_take) auto
    have "map_option pick (lastOnOrBefore prices t) = result"
    proof (cases "left = 0")
      case True
      then show ?thesis using flt res by (simp add: lastOnOrBefore_def)
    next
      case False
      then have pos: "0 < nat left" "nat left \<le> length prices" using l0 lr rlen by auto
      then have ne: "take (nat left) prices \<noteq> []" by auto
      have "last (take (nat left) prices) = prices ! (nat left - 1)"
        using pos ne by (simp add: last_conv_nth)
      then show ?thesis using flt res ne False
        by (auto simp: lastOnOrBefore_def split: list.splits)
    qed
    then show ?thesis
      using False by (subst bsearch.simps) simp
  next
    case True
    define mid where "mid = (left + right) div 2"
    have midr: "left \<le> mid" "mid \<le> right" "0 \<le> mid" "mid < int (length prices)"
      using True l0 rlen by (auto simp: mid_def)
    have el: "elemAt prices mid = Inr (prices ! nat mid)"
      using midr by (simp add: elemAt_in_range)
    show ?thesis
    proof (cases "sp_date (prices ! nat mid) \<le> t")
      case le: True
      have b': "\<forall>i. i < nat (mid + 1) \<longrightarrow> sp_date (prices ! i) \<le> t"
      proof (intro allI impI)
        fix i assume "i < nat (mid + 1)"
        then have "i \<le> nat mid" "nat mid < length prices" using midr by auto
        then have "sp_date (prices ! i) \<le> sp_date (prices ! nat mid)"
          using srt by (simp add: sorted_iff_nth_mono)
        then show "sp_date (prices ! i) \<le> t" using le by simp
      qed
      have r': "Some (pick (prices ! nat mid)) =
          (if mid + 1 = 0 then None else Some (pick (prices ! (nat (mid + 1) - 1))))"
        using midr by (simp add: nat_add_distrib)
      have "bsearch pick prices t (mid + 1) right (Some (pick (prices ! nat mid)))
            = Inr (map_option pick (lastOnOrBefore prices t))"
        using midr rlen above b' r' srt
        by (intro "1.IH"(1)[OF True mid_def le]) auto
      then show ?thesis
        using True le el by (subst bsearch.simps) (simp add: mid_def Let_def)
    next
      case gt: False
      have a': "\<forall>i. mid - 1 < int i \<and> i < length prices \<longrightarrow> \<not> sp_date (prices ! i) \<le> t"
      proof (intro allI impI)
        fix i assume "mid - 1 < int i \<and> i < length prices"
        then have "nat mid \<le> i" "i < length prices" using midr by auto
        then have "sp_date (prices ! nat mid) \<le> sp_date (prices ! i)"
          using srt by (simp add: sorted_iff_nth_mono)
        then show "\<not> sp_date (prices ! i) \<le> t" using gt by auto
      qed
      have "bsearch pick prices t left (mid - 1) result
            = Inr (map_option pick (lastOnOrBefore prices t))"
        using midr l0 below a' res srt
        by (intro "1.IH"(2)[OF True mid_def gt]) auto
      then show ?thesis
        using True gt el by (subst bsearch.simps) (simp add: mid_def Let_def)
    qed
  qed
qed

lemma bsearch_total:
  "0 \<le> left \<Longrightarrow> right < int (length prices) \<Longrightarrow>
     \<exists>v. bsearch pick prices t left right result = Inr v"
proof (induction pick prices t left right result rule: bsearch.induct)
  case (1 pick prices t left right result)
  show ?case
  proof (cases "left \<le> right")
    case False
    then show ?thesis by (subst bsearch.simps) simp
  next
    case True
    define mid where "mid = (left + right) div 2"
    have midr: "left \<le> mid" "mid \<le> right" "0 \<le> mid" "mid < int (length prices)"
      using True "1.prems" by (auto simp: mid_def)
    have el: "elemAt prices mid = Inr (prices ! nat mid)"
      using midr by (simp add: elemAt_in_range)
    show ?thesis
    proof (cases "sp_date (prices ! nat mid) \<le> t")
      case le: True
      have "\<exists>v. bsearch pick prices t (mid + 1) right (Some (pick (prices ! nat mid))) = Inr v"
        using midr "1.prems" by (intro "1.IH"(1)[OF True mid_def le]) auto
      then show ?thesis
        using True le el by (subst bsearch.simps) (simp add: mid_def Let_def)
    next
      case gt: False
      have "\<exists>v. bsearch pick prices t left (mid - 1) result = Inr v"
        using midr "1.prems" by (intro "1.IH"(2)[OF True mid_def gt]) auto
      then show ?thesis
        using True gt el by (subst bsearch.simps) (simp add: mid_def Let_def)
    qed
  qed
qed

section \<open>Date strings and Date objects order alike\<close>

lemma digit_bound: "isDigit c \<Longrightarrow> digitVal c < 10 \<and> of_char c = 48 + digitVal c"
  by (auto simp: digitVal_def isDigit_def less_eq_char_def)

lemma digit_less_iff:
  "isDigit c \<Longrightarrow> isDigit c' \<Longrightarrow> (c < c') = (digitVal c < digitVal c')"
  by (drule digit_bound)+ (simp add: less_char_def)

lemma digit_eq_iff:
  "isDigit c \<Longrightarrow> isDigit c' \<Longrightarrow> (c = c') = (digitVal c = digitVal c')"
  by (drule digit_bound)+ (metis (no_types) of_char_eq_iff)

lemma parseYMD_SomeD:
  assumes "parseYMD s = Some k"
  obtains y1 y2 y3 y4 m1 m2 d1 d2 where
    "s = [y1, y2, y3, y4, CHR ''-'', m1, m2, CHR ''-'', d1, d2]"
    "isDigit y1" "isDigit y2" "isDigit y3" "isDigit y4"
    "isDigit m1" "isDigit m2" "isDigit d1" "isDigit d2"
    "k = (1000 * digitVal y1 + 100 * digitVal y2 + 10 * digitVal y3 + digitVal y4,
          10 * digitVal m1 + digitVal m2, 10 * digitVal d1 + digitVal d2)"
  using assms
  by (elim parseYMD.elims) (auto split: if_splits)

lemma lex_step_less:
  "x < 10 \<Longrightarrow> y < 10 \<Longrightarrow> (v * 10 + x < v' * 10 + y) = (v < v' \<or> v = v' \<and> x < y)" for v v' x y :: nat
  by linarith

lemma lex_step_eq:
  "x < 10 \<Longrightarrow> y < 10 \<Longrightarrow> (v * 10 + x = v' * 10 + y) = (v = v' \<and> x = y)" for v v' x y :: nat
  using lex_step_less[of x y v v'] lex_step_less[of y x v' v] by (cases "v * 10 + x < v' * 10 + y"; cases "v' * 10 + y < v * 10 + x") auto

lemma lex_foldl:
  "length xs = length ys \<Longrightarrow> \<forall>x\<in>set xs. x < 10 \<Longrightarrow> \<forall>y\<in>set ys. y < 10 \<Longrightarrow>
   (foldl (\<lambda>v x. v * 10 + x) v xs \<le> foldl (\<lambda>v x. v * 10 + x) v' ys)
     = (v < v' \<or> v = v' \<and> xs \<le> ys)" for v v' :: nat
proof (induction xs ys arbitrary: v v' rule: list_induct2)
  case Nil
  then show ?case by (simp add: le_less)
next
  case (Cons x xs y ys)
  have xy: "x < 10" "y < 10" using Cons.prems by simp_all
  have rest: "\<forall>x\<in>set xs. x < 10" "\<forall>y\<in>set ys. y < 10" using Cons.prems by simp_all
  have "(foldl (\<lambda>v x. v * 10 + x) v (x # xs) \<le> foldl (\<lambda>v x. v * 10 + x) v' (y # ys))
      = (v * 10 + x < v' * 10 + y \<or> v * 10 + x = v' * 10 + y \<and> xs \<le> ys)"
    using Cons.IH[OF rest, of "v * 10 + x" "v' * 10 + y"] by simp
  then show ?case
    unfolding lex_step_less[OF xy] lex_step_eq[OF xy] Cons_le_Cons by blast
qed

lemma string_le_key:
  assumes "parseYMD s = Some k" "parseYMD s' = Some k'"
  shows "(s \<le> s') = (ymdKey k \<le> ymdKey k')"
proof -
  from assms(1) obtain y1 y2 y3 y4 m1 m2 d1 d2 where s:
    "s = [y1, y2, y3, y4, CHR ''-'', m1, m2, CHR ''-'', d1, d2]"
    "isDigit y1" "isDigit y2" "isDigit y3" "isDigit y4"
    "isDigit m1" "isDigit m2" "isDigit d1" "isDigit d2"
    "k = (1000 * digitVal y1 + 100 * digitVal y2 + 10 * digitVal y3 + digitVal y4,
          10 * digitVal m1 + digitVal m2, 10 * digitVal d1 + digitVal d2)"
    by (rule parseYMD_SomeD)
  from assms(2) obtain z1 z2 z3 z4 n1 n2 e1 e2 where s':
    "s' = [z1, z2, z3, z4, CHR ''-'', n1, n2, CHR ''-'', e1, e2]"
    "isDigit z1" "isDigit z2" "isDigit z3" "isDigit z4"
    "isDigit n1" "isDigit n2" "isDigit e1" "isDigit e2"
    "k' = (1000 * digitVal z1 + 100 * digitVal z2 + 10 * digitVal z3 + digitVal z4,
          10 * digitVal n1 + digitVal n2, 10 * digitVal e1 + digitVal e2)"
    by (rule parseYMD_SomeD)
  let ?ds = "map digitVal [y1, y2, y3, y4, m1, m2, d1, d2]"
  let ?es = "map digitVal [z1, z2, z3, z4, n1, n2, e1, e2]"
  have bnd: "\<forall>x\<in>set ?ds. x < 10" "\<forall>x\<in>set ?es. x < 10"
    using s(2-9) s'(2-9) by (auto dest: digit_bound)
  have "(s \<le> s') = (?ds \<le> ?es)"
    unfolding s(1) s'(1)
    by (simp add: digit_less_iff[OF s(2) s'(2)] digit_eq_iff[OF s(2) s'(2)]
        digit_less_iff[OF s(3) s'(3)] digit_eq_iff[OF s(3) s'(3)]
        digit_less_iff[OF s(4) s'(4)] digit_eq_iff[OF s(4) s'(4)]
        digit_less_iff[OF s(5) s'(5)] digit_eq_iff[OF s(5) s'(5)]
        digit_less_iff[OF s(6) s'(6)] digit_eq_iff[OF s(6) s'(6)]
        digit_less_iff[OF s(7) s'(7)] digit_eq_iff[OF s(7) s'(7)]
        digit_less_iff[OF s(8) s'(8)] digit_eq_iff[OF s(8) s'(8)]
        digit_less_iff[OF s(9) s'(9)] digit_eq_iff[OF s(9) s'(9)])
  also have "\<dots> = (foldl (\<lambda>v x. v * 10 + x) 0 ?ds \<le> foldl (\<lambda>v x. v * 10 + x) 0 ?es)"
    using lex_foldl[OF _ bnd, of 0 0] by simp
  also have "foldl (\<lambda>v x. v * 10 + x) 0 ?ds = ymdKey k"
    unfolding s(10) ymdKey_def prod.case by simp
  also have "foldl (\<lambda>v x. v * 10 + x) 0 ?es = ymdKey k'"
    unfolding s'(10) ymdKey_def prod.case by simp
  finally show ?thesis .
qed

lemma ceil_div_step:
  fixes n y :: nat
  assumes "0 < n"
  shows "(y + n) div n = (y + (n - 1)) div n + (if y mod n = 0 then 1 else 0)"
proof -
  define q r where "q = y div n" and "r = y mod n"
  have y: "y = r + q * n" and r: "r < n" using assms by (simp_all add: q_def r_def)
  have lhs: "(y + n) div n = q + 1" using assms div_add_self2[of n y] by (simp add: q_def)
  have "y + (n - 1) = (r + (n - 1)) + q * n" using y by simp
  then have rhs: "(y + (n - 1)) div n = q + (r + (n - 1)) div n"
    using assms by (simp only: div_mult_self1)
  show ?thesis
  proof (cases "r = 0")
    case True
    then have "(r + (n - 1)) div n = 0" using assms by simp
    then show ?thesis using lhs rhs True by (simp add: r_def)
  next
    case False
    then have "r + (n - 1) = (r - 1) + 1 * n" using assms by simp
    then have "(r + (n - 1)) div n = 1 + (r - 1) div n"
      using assms by (simp only: div_mult_self1)
    moreover have "(r - 1) div n = 0" using r by simp
    ultimately show ?thesis using lhs rhs False by (simp add: r_def)
  qed
qed

lemma div4_Suc: "(Suc y + 3) div 4 = (y + 3) div 4 + (if y mod 4 = 0 then 1 else 0)"
  using ceil_div_step[of 4 y] by simp

lemma div100_Suc: "(Suc y + 99) div 100 = (y + 99) div 100 + (if y mod 100 = 0 then 1 else 0)"
  using ceil_div_step[of 100 y] by simp

lemma div400_Suc: "(Suc y + 399) div 400 = (y + 399) div 400 + (if y mod 400 = 0 then 1 else 0)"
  using ceil_div_step[of 400 y] by simp

lemma mod400_100: "y mod 400 = 0 \<Longrightarrow> y mod 100 = 0" for y :: nat
proof -
  assume "y mod 400 = 0"
  then have "400 dvd y" by (simp add: mod_eq_0_iff_dvd)
  moreover have "(100::nat) dvd 400" by simp
  ultimately have "100 dvd y" by (rule dvd_trans[rotated])
  then show ?thesis by (simp add: mod_eq_0_iff_dvd)
qed

lemma mod100_4: "y mod 100 = 0 \<Longrightarrow> y mod 4 = 0" for y :: nat
proof -
  assume "y mod 100 = 0"
  then have "100 dvd y" by (simp add: mod_eq_0_iff_dvd)
  moreover have "(4::nat) dvd 100" by simp
  ultimately have "4 dvd y" by (rule dvd_trans[rotated])
  then show ?thesis by (simp add: mod_eq_0_iff_dvd)
qed

lemma ceil_div_mono: "(y + 99) div 100 \<le> (y + 3) div 4" for y :: nat
proof (induction y)
  case 0
  then show ?case by simp
next
  case (Suc y)
  show ?case
    using Suc mod100_4[of y] div4_Suc[of y] div100_Suc[of y]
    by (cases "y mod 100 = 0") (simp_all del: add_Suc)
qed
lemma daysBeforeYear_Suc: "daysBeforeYear (Suc y) = daysBeforeYear y + yearLength y"
proof -
  define A where "A = (y + 3) div 4"
  define B where "B = (y + 99) div 100"
  define C where "C = (y + 399) div 400"
  have le: "B \<le> A" unfolding A_def B_def by (rule ceil_div_mono)
  have m: "y mod 400 = 0 \<longrightarrow> y mod 100 = 0" "y mod 100 = 0 \<longrightarrow> y mod 4 = 0"
    using mod400_100[of y] mod100_4[of y] by blast+
  have "daysBeforeYear (Suc y) =
      365 * Suc y + (A + (if y mod 4 = 0 then 1 else 0)) - (B + (if y mod 100 = 0 then 1 else 0))
        + (C + (if y mod 400 = 0 then 1 else 0))"
    unfolding daysBeforeYear_def div4_Suc div100_Suc div400_Suc A_def B_def C_def by (rule refl)
  moreover have "daysBeforeYear y = 365 * y + A - B + C"
    unfolding daysBeforeYear_def A_def B_def C_def by (rule refl)
  ultimately show ?thesis
    using le m unfolding yearLength_def isLeap_def
    by (cases "y mod 4 = 0"; cases "y mod 100 = 0"; cases "y mod 400 = 0") simp_all
qed

lemma daysBeforeYear_mono: "y < y' \<Longrightarrow> daysBeforeYear y + yearLength y \<le> daysBeforeYear y'"
proof (induction y')
  case 0
  then show ?case by simp
next
  case (Suc y')
  show ?case
  proof (cases "y = y'")
    case True
    then show ?thesis by (simp add: daysBeforeYear_Suc)
  next
    case False
    with Suc.prems have "y < y'" by simp
    from Suc.IH[OF this] show ?thesis by (simp add: daysBeforeYear_Suc)
  qed
qed

lemma month_cases:
  "1 \<le> m \<Longrightarrow> m \<le> 12 \<Longrightarrow>
   m = 1 \<or> m = 2 \<or> m = 3 \<or> m = 4 \<or> m = 5 \<or> m = 6 \<or> m = 7 \<or> m = 8 \<or> m = 9 \<or> m = 10
     \<or> m = 11 \<or> m = (12::nat)"
  by arith

lemma daysBeforeMonth_Suc:
  assumes "1 \<le> m" "m \<le> 11"
  shows "daysBeforeMonth y (Suc m) = daysBeforeMonth y m + daysInMonth y m"
proof -
  from assms have "m = 1 \<or> m = 2 \<or> m = 3 \<or> m = 4 \<or> m = 5 \<or> m = 6 \<or> m = 7 \<or> m = 8 \<or> m = 9
      \<or> m = 10 \<or> m = 11" by arith
  then show ?thesis
    by (elim disjE) (simp_all add: daysBeforeMonth_def daysInMonth_def)
qed

lemma daysBeforeMonth_mono:
  "1 \<le> m \<Longrightarrow> m < m' \<Longrightarrow> m' \<le> 12 \<Longrightarrow>
   daysBeforeMonth y m + daysInMonth y m \<le> daysBeforeMonth y m'"
proof (induction m')
  case 0
  then show ?case by simp
next
  case (Suc m')
  show ?case
  proof (cases "m = m'")
    case True
    then show ?thesis using Suc.prems by (simp add: daysBeforeMonth_Suc)
  next
    case False
    with Suc.prems have lt: "m < m'" "m' \<le> 12" "1 \<le> m'" "m' \<le> 11" by simp_all
    from Suc.IH[OF Suc.prems(1) lt(1,2)] show ?thesis
      using lt by (simp add: daysBeforeMonth_Suc)
  qed
qed

lemma dayOfYear_bound:
  assumes "1 \<le> m" "m \<le> 12" "d \<le> daysInMonth y m"
  shows "daysBeforeMonth y m + d \<le> yearLength y"
proof -
  from month_cases[OF assms(1,2)] show ?thesis
    using assms(3)
    by (elim disjE) (simp_all add: daysBeforeMonth_def daysInMonth_def yearLength_def split: if_splits)
qed

lemma dayNumber_strict:
  assumes "validYMD k" "validYMD k'" "ymdKey k < ymdKey k'"
  shows "dayNumber k < dayNumber k'"
proof -
  obtain y m d where k: "k = (y, m, d)" by (cases k)
  obtain y' m' d' where k': "k' = (y', m', d')" by (cases k')
  have v: "1 \<le> m" "m \<le> 12" "1 \<le> d" "d \<le> daysInMonth y m"
    and v': "1 \<le> m'" "m' \<le> 12" "1 \<le> d'" "d' \<le> daysInMonth y' m'"
    using assms(1,2) by (simp_all add: validYMD_def k k')
  have d31: "d \<le> 31" "d' \<le> 31"
    using v(4) v'(4) by (simp_all add: daysInMonth_def split: if_splits)
  have key: "y * 10000 + m * 100 + d < y' * 10000 + m' * 100 + d'"
    using assms(3) unfolding k k' ymdKey_def prod.case .
  have y: "y \<le> y'" using key v'(2) d31 by linarith
  have m: "y = y' \<Longrightarrow> m \<le> m'" using key d31 by linarith
  have d: "y = y' \<Longrightarrow> m = m' \<Longrightarrow> d < d'" using key by linarith
  have lex: "y < y' \<or> y = y' \<and> (m < m' \<or> m = m' \<and> d < d')"
    using y m d by (cases "y = y'"; cases "m = m'") auto
  then consider "y < y'" | "y = y'" "m < m'" | "y = y'" "m = m'" "d < d'" by blast
  then show ?thesis
  proof cases
    case 1
    have "daysBeforeYear y + daysBeforeMonth y m + (d - 1) < daysBeforeYear y + yearLength y"
      using dayOfYear_bound[OF v(1,2,4)] v(3) by simp
    also have "\<dots> \<le> daysBeforeYear y'" by (rule daysBeforeYear_mono[OF 1])
    finally show ?thesis by (simp add: dayNumber_def k k')
  next
    case 2
    have "daysBeforeMonth y m + (d - 1) < daysBeforeMonth y m + daysInMonth y m"
      using v(3,4) by simp
    also have "\<dots> \<le> daysBeforeMonth y m'" by (rule daysBeforeMonth_mono[OF v(1) 2(2) v'(2)])
    finally show ?thesis using 2(1) by (simp add: dayNumber_def k k')
  next
    case 3
    then show ?thesis using v(3) by (simp add: dayNumber_def k k')
  qed
qed

lemma ymdKey_inj:
  assumes "validYMD k" "validYMD k'" "ymdKey k = ymdKey k'"
  shows "k = k'"
proof -
  obtain y m d where k: "k = (y, m, d)" by (cases k)
  obtain y' m' d' where k': "k' = (y', m', d')" by (cases k')
  have v: "m \<le> 12" "d \<le> daysInMonth y m" and v': "m' \<le> 12" "d' \<le> daysInMonth y' m'"
    using assms(1,2) by (simp_all add: validYMD_def k k')
  have d31: "d \<le> 31" "d' \<le> 31"
    using v(2) v'(2) by (simp_all add: daysInMonth_def split: if_splits)
  have key: "y * 10000 + m * 100 + d = y' * 10000 + m' * 100 + d'"
    using assms(3) unfolding k k' ymdKey_def prod.case .
  have y: "y = y'" using key v(1) v'(1) d31 by linarith
  have m: "m = m'" using key y d31 by linarith
  have d: "d = d'" using key y m by linarith
  show ?thesis by (simp add: k k' y m d)
qed

lemma dayNumber_le_iff:
  assumes "validYMD k" "validYMD k'"
  shows "(dayNumber k \<le> dayNumber k') = (ymdKey k \<le> ymdKey k')"
proof
  assume "dayNumber k \<le> dayNumber k'"
  then show "ymdKey k \<le> ymdKey k'"
    using dayNumber_strict[OF assms(2,1)] by (cases "ymdKey k' < ymdKey k") auto
next
  assume "ymdKey k \<le> ymdKey k'"
  then consider "ymdKey k < ymdKey k'" | "ymdKey k = ymdKey k'" by linarith
  then show "dayNumber k \<le> dayNumber k'"
  proof cases
    case 1
    from dayNumber_strict[OF assms 1] show ?thesis by simp
  next
    case 2
    from ymdKey_inj[OF assms 2] show ?thesis by simp
  qed
qed

lemma dateLe_iso:
  assumes "isISODate a" "isISODate b"
  shows "dateLe (newDate a) (newDate b) = (a \<le> b)"
proof -
  from assms(1) obtain k where k: "parseYMD a = Some k" "validYMD k" "newDate a = Some (epochMillis k)"
    by (auto simp: isISODate_def newDate_def split: option.splits if_splits)
  from assms(2) obtain k' where k': "parseYMD b = Some k'" "validYMD k'" "newDate b = Some (epochMillis k')"
    by (auto simp: isISODate_def newDate_def split: option.splits if_splits)
  have "dateLe (newDate a) (newDate b) = (dayNumber k \<le> dayNumber k')"
    by (simp add: k(3) k'(3) dateLe_def epochMillis_def)
  also have "\<dots> = (ymdKey k \<le> ymdKey k')" by (rule dayNumber_le_iff[OF k(2) k'(2)])
  also have "\<dots> = (a \<le> b)" by (rule string_le_key[OF k(1) k'(1), symmetric])
  finally show ?thesis .
qed

text \<open>The equations that evaluate the Date constructor on a literal.\<close>

lemmas date_eval =
  isISODate_def newDate_def isDigit_def digitVal_def validYMD_def daysInMonth_def isLeap_def
  dateLe_def epochMillis_def dayNumber_def daysBeforeYear_def daysBeforeMonth_def

section \<open>The two lookups\<close>

lemma scanBack_spec:
  "n \<le> length prices \<Longrightarrow>
   scanBack prices t n =
     Inr (case filter (\<lambda>p. dateLe (newDate (sp_date p)) t) (take n prices) of
            [] \<Rightarrow> None | x # xs \<Rightarrow> Some (last (x # xs)))"
proof (induction n)
  case 0
  then show ?case by simp
next
  case (Suc n)
  then have n: "n < length prices" by simp
  have tk: "take (Suc n) prices = take n prices @ [prices ! n]"
    using n by (simp add: take_Suc_conv_app_nth)
  show ?case
    using Suc.IH n by (simp add: tk split: list.splits)
qed

lemma findPriceOnDate_spec:
  "findPriceOnDate prices date =
     Inr (case filter (\<lambda>p. dateLe (newDate (sp_date p)) (newDate date)) prices of
            [] \<Rightarrow> (if prices = [] then None else Some (hd prices))
          | x # xs \<Rightarrow> Some (last (x # xs)))"
proof -
  have "scanBack prices (newDate date) (length prices) =
     Inr (case filter (\<lambda>p. dateLe (newDate (sp_date p)) (newDate date)) prices of
            [] \<Rightarrow> None | x # xs \<Rightarrow> Some (last (x # xs)))"
    using scanBack_spec[of "length prices" prices "newDate date"] by simp
  then show ?thesis
    unfolding findPriceOnDate_def Let_def
    by (cases "prices = []") (simp_all split: list.splits)
qed

lemma getPriceOnOrBefore_sorted:
  assumes "sorted (map sp_date prices)"
  shows "getPriceOnOrBefore prices t = Inr (onOrBeforeSpec prices t)"
proof (cases "prices = []")
  case True
  then show ?thesis by (simp add: getPriceOnOrBefore_def onOrBeforeSpec_def lastOnOrBefore_def)
next
  case False
  have "bsearch sp_price prices t 0 (int (length prices) - 1) None
      = Inr (map_option sp_price (lastOnOrBefore prices t))"
    using assms by (intro bsearch_sorted) auto
  then show ?thesis
    using False
    by (auto simp: getPriceOnOrBefore_def onOrBeforeSpec_def split: option.splits)
qed

lemma getPriceOnOrBefore_total: "\<exists>v. getPriceOnOrBefore prices t = Inr v"
proof (cases "prices = []")
  case True
  then show ?thesis by (simp add: getPriceOnOrBefore_def)
next
  case False
  obtain v where "bsearch sp_price prices t 0 (int (length prices) - 1) None = Inr v"
    using bsearch_total[of 0 "int (length prices) - 1" prices sp_price t None] by auto
  then show ?thesis
    using False by (auto simp: getPriceOnOrBefore_def split: option.splits)
qed

text \<open>
  C5. Clamp property: on a non-empty series ascending by date, a target strictly before
  the first date gets the first entry's price from the binary-search lookup, and the
  backward scan gives the same when no entry is on or before the target; either lookup
  returns null only for the empty series.
\<close>

theorem clamp_to_first_price:
  "(prices \<noteq> [] \<and> sorted (map sp_date prices) \<and> t < sp_date (hd prices)
      \<longrightarrow> getPriceOnOrBefore prices t = Inr (Some (sp_price (hd prices))))
   \<and> (prices \<noteq> [] \<and> (\<forall>p \<in> set prices. \<not> dateLe (newDate (sp_date p)) (newDate t))
      \<longrightarrow> getPriceOnDate prices t = Inr (Some (sp_price (hd prices))))
   \<and> (getPriceOnOrBefore prices t = Inr None \<longleftrightarrow> prices = [])
   \<and> (getPriceOnDate prices t = Inr None \<longleftrightarrow> prices = [])"
proof (intro conjI impI)
  assume a: "prices \<noteq> [] \<and> sorted (map sp_date prices) \<and> t < sp_date (hd prices)"
  then obtain p ps where ps: "prices = p # ps" by (cases prices) auto
  have "\<forall>q \<in> set prices. \<not> sp_date q \<le> t"
    using a ps by (auto simp: not_le)
  then have "filter (\<lambda>p. sp_date p \<le> t) prices = []" by (simp add: filter_empty_conv)
  then have "onOrBeforeSpec prices t = Some (sp_price (hd prices))"
    using a by (simp add: onOrBeforeSpec_def lastOnOrBefore_def)
  then show "getPriceOnOrBefore prices t = Inr (Some (sp_price (hd prices)))"
    using a by (simp add: getPriceOnOrBefore_sorted)
next
  assume a: "prices \<noteq> [] \<and> (\<forall>p \<in> set prices. \<not> dateLe (newDate (sp_date p)) (newDate t))"
  then have "filter (\<lambda>p. dateLe (newDate (sp_date p)) (newDate t)) prices = []"
    by (simp add: filter_empty_conv)
  then show "getPriceOnDate prices t = Inr (Some (sp_price (hd prices)))"
    using a by (simp add: getPriceOnDate_def findPriceOnDate_spec)
next
  obtain v where v: "bsearch sp_price prices t 0 (int (length prices) - 1) None = Inr v"
    using bsearch_total[of 0 "int (length prices) - 1" prices sp_price t None] by auto
  show "getPriceOnOrBefore prices t = Inr None \<longleftrightarrow> prices = []"
    using v by (cases "prices = []") (auto simp: getPriceOnOrBefore_def split: option.splits)
next
  show "getPriceOnDate prices t = Inr None \<longleftrightarrow> prices = []"
    by (cases "prices = []") (auto simp: getPriceOnDate_def findPriceOnDate_spec split: list.splits)
qed

theorem clamp_to_first_price_witness:
  "getPriceOnOrBefore
     [\<lparr>sp_date = ''2023-01-02'', sp_price = 100, sp_high = None\<rparr>,
      \<lparr>sp_date = ''2023-01-03'', sp_price = 105, sp_high = None\<rparr>] ''2022-12-30''
     = Inr (Some 100)
   \<and> getPriceOnDate
     [\<lparr>sp_date = ''2023-01-02'', sp_price = 100, sp_high = None\<rparr>,
      \<lparr>sp_date = ''2023-01-03'', sp_price = 105, sp_high = None\<rparr>] ''2022-12-30''
     = Inr (Some 100)"
proof -
  let ?ps = "[\<lparr>sp_date = ''2023-01-02'', sp_price = 100, sp_high = None\<rparr>,
      \<lparr>sp_date = ''2023-01-03'', sp_price = 105, sp_high = None\<rparr>]"
  have h1: "?ps \<noteq> [] \<and> sorted (map sp_date ?ps) \<and> ''2022-12-30'' < sp_date (hd ?ps)"
    by simp
  have h2: "?ps \<noteq> [] \<and> (\<forall>p \<in> set ?ps. \<not> dateLe (newDate (sp_date p)) (newDate ''2022-12-30''))"
    by (simp add: date_eval)
  show ?thesis
    using clamp_to_first_price[of ?ps "''2022-12-30''"] h1 h2 by simp
qed

text \<open>
  C4. On a series ascending by ISO date and an ISO target date, the backward scan on
  parsed dates and the binary search on date strings return the same result: the price
  of the last entry on or before the target, the first entry's price when there is no
  such entry, and null for the empty series.
\<close>

theorem lookups_agree:
  assumes "ascendingISO prices" and "isISODate t"
  shows "getPriceOnDate prices t = getPriceOnOrBefore prices t
       \<and> getPriceOnOrBefore prices t = Inr (onOrBeforeSpec prices t)"
proof -
  have iso: "\<forall>p \<in> set prices. isISODate (sp_date p)" and srt: "sorted (map sp_date prices)"
    using assms(1) by (simp_all add: ascendingISO_def list_all_iff)
  have "filter (\<lambda>p. dateLe (newDate (sp_date p)) (newDate t)) prices
      = filter (\<lambda>p. sp_date p \<le> t) prices"
    using iso assms(2) by (intro filter_cong) (simp_all add: dateLe_iso)
  then have "getPriceOnDate prices t = Inr (onOrBeforeSpec prices t)"
    by (simp add: getPriceOnDate_def findPriceOnDate_spec onOrBeforeSpec_def lastOnOrBefore_def
        split: list.splits)
  then show ?thesis using srt by (simp add: getPriceOnOrBefore_sorted)
qed

theorem lookups_agree_witness:
  "getPriceOnDate
     [\<lparr>sp_date = ''2023-01-02'', sp_price = 100, sp_high = None\<rparr>,
      \<lparr>sp_date = ''2023-01-05'', sp_price = 108, sp_high = None\<rparr>] ''2023-01-04''
   = getPriceOnOrBefore
     [\<lparr>sp_date = ''2023-01-02'', sp_price = 100, sp_high = None\<rparr>,
      \<lparr>sp_date = ''2023-01-05'', sp_price = 108, sp_high = None\<rparr>] ''2023-01-04''
   \<and> getPriceOnOrBefore
     [\<lparr>sp_date = ''2023-01-02'', sp_price = 100, sp_high = None\<rparr>,
      \<lparr>sp_date = ''2023-01-05'', sp_price = 108, sp_high = None\<rparr>] ''2023-01-04''
   = Inr (Some 100)"
proof -
  let ?ps = "[\<lparr>sp_date = ''2023-01-02'', sp_price = 100, sp_high = None\<rparr>,
      \<lparr>sp_date = ''2023-01-05'', sp_price = 108, sp_high = None\<rparr>]"
  have h1: "ascendingISO ?ps"
    by (simp add: ascendingISO_def date_eval)
  have h2: "isISODate ''2023-01-04''"
    by (simp add: date_eval)
  have v: "onOrBeforeSpec ?ps ''2023-01-04'' = Some 100"
    by (simp add: onOrBeforeSpec_def lastOnOrBefore_def)
  show ?thesis
    using lookups_agree[OF h1 h2] by (simp add: v)
qed

section \<open>Split adjustment\<close>









lemma getUnadjustedPriceOnOrBefore_total:
  "\<exists>v. getUnadjustedPriceOnOrBefore prices splits t = Inr v"
proof (cases "prices = []")
  case True
  then show ?thesis by (simp add: getUnadjustedPriceOnOrBefore_def)
next
  case False
  obtain v where "bsearch (\<lambda>p. (sp_price p, sp_date p)) prices t 0 (int (length prices) - 1) None = Inr v"
    using bsearch_total[of 0 "int (length prices) - 1" prices "\<lambda>p. (sp_price p, sp_date p)" t None]
    by auto
  then show ?thesis
    using False
    by (auto simp: getUnadjustedPriceOnOrBefore_def Let_def split: option.splits)
qed

lemma sorted_le_last:
  "sorted xs \<Longrightarrow> x \<in> set xs \<Longrightarrow> x \<le> last xs" for xs :: "'a::linorder list"
  by (induction xs) auto




section \<open>Properties of the breakdown engine\<close>

lemma getLatestPrice_eq:
  "getLatestPrice prices = Inr (if prices = [] then 0 else sp_price (last prices))"
proof (cases "prices = []")
  case True
  then show ?thesis by (simp add: getLatestPrice_def)
next
  case False
  then have "elemAt prices (int (length prices) - 1) = Inr (last prices)"
    by (simp add: elemAt_def last_conv_nth nat_diff_distrib')
  then show ?thesis using False by (simp add: getLatestPrice_def)
qed

lemma getPriceOnDate_total: "\<exists>v. getPriceOnDate prices date = Inr v"
  by (simp add: getPriceOnDate_def findPriceOnDate_spec)

lemma jsDiv_nonzero [simp]: "b \<noteq> 0 \<Longrightarrow> jsDiv a b = Inr (a / b)"
  by (simp add: jsDiv_def)

lemma aggregateTrade_total: "\<exists>v. aggregateTrade spyPrices aggregated trade = Inr v"
proof -
  obtain v where v: "getPriceOnDate spyPrices (trade_date trade) = Inr v"
    using getPriceOnDate_total by blast
  show ?thesis
    unfolding aggregateTrade_def Let_def v
    by (cases v) simp_all
qed

lemma aggregateTrades_total: "\<exists>v. aggregateTrades spyPrices trades aggregated = Inr v"
proof (induction trades arbitrary: aggregated)
  case Nil
  then show ?case by simp
next
  case (Cons trade rest)
  obtain a where "aggregateTrade spyPrices aggregated trade = Inr a"
    using aggregateTrade_total by blast
  then show ?case using Cons.IH[of a] by simp
qed

lemma breakdownRows_spec:
  "\<exists>rows. breakdownRows stockPrices c aggs acc = Inr (acc @ rows)
      \<and> list_all (pricedTicker stockPrices) rows"
proof (induction aggs arbitrary: acc)
  case Nil
  then show ?case by simp
next
  case (Cons a aggs)
  obtain ticker d where a: "a = (ticker, d)" by (cases a)
  show ?case
  proof (cases "totalShares d \<le> 0 \<or> stockPrices ticker = None \<or> stockPrices ticker = Some []")
    case True
    then show ?thesis using Cons.IH[of acc] by (auto simp: a split: option.splits)
  next
    case False
    then obtain ps where ps: "stockPrices ticker = Some ps" "ps \<noteq> []" "0 < totalShares d"
      by (cases "stockPrices ticker") auto
    define row where "row = \<lparr> bd_ticker = ticker,
                       bd_shares = mathRound (totalShares d * 1000000) / 1000000,
                       buyDate = firstBuyDate d,
                       buyPrice = round2 (max 0 (totalCost d) / totalShares d),
                       currentPrice = sp_price (last ps),
                       currentValue = round2 (totalShares d * sp_price (last ps)),
                       spyShares = round2 (max 0 (totalSpyShares d)),
                       spyCurrentValue = round2 (max 0 (totalSpyShares d) * c),
                       gain = round2 (totalShares d * sp_price (last ps) - max 0 (totalCost d)),
                       spyGain = round2 (max 0 (totalSpyShares d) * c - max 0 (totalCost d)),
                       difference = round2 (totalShares d * sp_price (last ps) - max 0 (totalCost d)
                           - (max 0 (totalSpyShares d) * c - max 0 (totalCost d))) \<rparr>"
    have step: "breakdownRows stockPrices c (a # aggs) acc
        = breakdownRows stockPrices c aggs (acc @ [row])"
      using ps by (simp add: a getLatestPrice_eq Let_def row_def)
    from Cons.IH[of "acc @ [row]"] obtain rows where
      rows: "breakdownRows stockPrices c aggs (acc @ [row]) = Inr ((acc @ [row]) @ rows)"
        "list_all (pricedTicker stockPrices) rows" by blast
    have "pricedTicker stockPrices row" using ps by (simp add: pricedTicker_def row_def)
    then show ?thesis
      using rows step by (intro exI[of _ "row # rows"]) simp
  qed
qed

lemma calculateStockBreakdown_spec:
  "\<exists>rows. calculateStockBreakdown trades stockPrices spyPrices = Inr rows
      \<and> list_all (pricedTicker stockPrices) rows"
proof -
  obtain agg where agg: "aggregateTrades spyPrices trades [] = Inr agg"
    using aggregateTrades_total by blast
  obtain rows where rows:
    "breakdownRows stockPrices (if spyPrices = [] then 0 else sp_price (last spyPrices)) agg []
       = Inr ([] @ rows)" "list_all (pricedTicker stockPrices) rows"
    using breakdownRows_spec by blast
  have "list_all (pricedTicker stockPrices) (sort_key (\<lambda>b. - difference b) rows)"
    using rows(2) by (simp add: list_all_iff)
  then show ?thesis
    using rows(1) by (simp add: calculateStockBreakdown_def getLatestPrice_eq agg)
qed

text \<open>The equations that evaluate the breakdown on literal inputs.\<close>

lemmas breakdown_eval =
  calculateStockBreakdown_def getLatestPrice_def aggregateTrade_def getPriceOnDate_def
  findPriceOnDate_def elemAt_def jsDiv_def Let_def round2_def mathRound_def date_eval

text \<open>
  C10. The breakdown always returns, and no row of it is for a ticker whose entry in the
  price map is missing or empty, whatever the shares held in it.
\<close>

theorem breakdown_drops_unpriced_tickers:
  "\<exists>rows. calculateStockBreakdown trades stockPrices spyPrices = Inr rows
      \<and> (\<forall>row \<in> set rows. stockPrices (bd_ticker row) \<noteq> None
                             \<and> stockPrices (bd_ticker row) \<noteq> Some [])"
proof -
  from calculateStockBreakdown_spec obtain rows where
    "calculateStockBreakdown trades stockPrices spyPrices = Inr rows"
    "list_all (pricedTicker stockPrices) rows" by blast
  then show ?thesis
    by (auto simp: list_all_iff pricedTicker_def split: option.splits)
qed

theorem breakdown_drops_unpriced_tickers_witness:
  "calculateStockBreakdown
     [\<lparr>trade_id = ''a1'', trade_ticker = ''AAPL'', trade_date = ''2023-01-02'', trade_shares = 10,
       trade_price = Some 130, trade_type = Buy\<rparr>,
      \<lparr>trade_id = ''g1'', trade_ticker = ''GOOG'', trade_date = ''2023-01-02'', trade_shares = 5,
       trade_price = Some 90, trade_type = Buy\<rparr>]
     [''AAPL'' \<mapsto> [\<lparr>sp_date = ''2023-01-02'', sp_price = 130, sp_high = None\<rparr>],
      ''GOOG'' \<mapsto> []]
     [\<lparr>sp_date = ''2023-01-02'', sp_price = 380, sp_high = None\<rparr>]
   = Inr [\<lparr>bd_ticker = ''AAPL'', bd_shares = 10, buyDate = ''2023-01-02'', buyPrice = 130,
           currentPrice = 130, currentValue = 1300, spyShares = 342 / 100, spyCurrentValue = 1300,
           gain = 0, spyGain = 0, difference = 0\<rparr>]
   \<and> [''AAPL'' \<mapsto> [\<lparr>sp_date = ''2023-01-02'', sp_price = 130, sp_high = None\<rparr>],
      ''GOOG'' \<mapsto> []] ''AAPL'' \<noteq> Some []"
proof -
  define T where "T =
     [\<lparr>trade_id = ''a1'', trade_ticker = ''AAPL'', trade_date = ''2023-01-02'', trade_shares = 10,
       trade_price = Some 130, trade_type = Buy\<rparr>,
      \<lparr>trade_id = ''g1'', trade_ticker = ''GOOG'', trade_date = ''2023-01-02'', trade_shares = 5,
       trade_price = Some 90, trade_type = Buy\<rparr>]"
  define SP where "SP =
     [''AAPL'' \<mapsto> [\<lparr>sp_date = ''2023-01-02'', sp_price = 130, sp_high = None\<rparr>],
      ''GOOG'' \<mapsto> ([] :: StockPrice list)]"
  define SPY where "SPY = [\<lparr>sp_date = ''2023-01-02'', sp_price = 380, sp_high = None\<rparr>]"
  define row where "row =
     \<lparr>bd_ticker = ''AAPL'', bd_shares = 10, buyDate = ''2023-01-02'', buyPrice = 130,
           currentPrice = 130, currentValue = 1300, spyShares = 342 / 100, spyCurrentValue = 1300,
           gain = 0, spyGain = 0, difference = 0\<rparr>"
  have ev: "calculateStockBreakdown T SP SPY = Inr [row]"
    unfolding T_def SP_def SPY_def row_def by (simp add: breakdown_eval)
  from breakdown_drops_unpriced_tickers[of T SP SPY] obtain rows where
    r: "calculateStockBreakdown T SP SPY = Inr rows"
       "\<forall>row \<in> set rows. SP (bd_ticker row) \<noteq> None \<and> SP (bd_ticker row) \<noteq> Some []"
    by blast
  from r(1) ev have "rows = [row]" by simp
  with r(2) have "SP (bd_ticker row) \<noteq> Some []" by simp
  then have p: "SP ''AAPL'' \<noteq> Some []" by (simp add: row_def)
  show ?thesis
    using ev p unfolding T_def SP_def SPY_def row_def by blast
qed

text \<open>
  C1. The claim is that \<open>buyDate\<close> is the earliest date among the ticker's buy trades.
  The entry of a ticker is created with \<open>firstBuyDate: trade.date\<close> whatever the type of
  the first trade met, so a sell that comes first in the list and is dated before every
  buy leaves its date in the marker: here the only buy is on 2023-02-01 and the row
  reports 2023-01-02, the date of the sell.
\<close>

theorem firstBuyDate_takes_sell_date:
  "calculateStockBreakdown
     [\<lparr>trade_id = ''s1'', trade_ticker = ''AAPL'', trade_date = ''2023-01-02'', trade_shares = 1,
       trade_price = Some 100, trade_type = Sell\<rparr>,
      \<lparr>trade_id = ''b1'', trade_ticker = ''AAPL'', trade_date = ''2023-02-01'', trade_shares = 10,
       trade_price = Some 100, trade_type = Buy\<rparr>]
     [''AAPL'' \<mapsto> [\<lparr>sp_date = ''2023-02-01'', sp_price = 110, sp_high = None\<rparr>]]
     [\<lparr>sp_date = ''2023-01-02'', sp_price = 400, sp_high = None\<rparr>]
   = Inr [\<lparr>bd_ticker = ''AAPL'', bd_shares = 9, buyDate = ''2023-01-02'', buyPrice = 100,
           currentPrice = 110, currentValue = 990, spyShares = 9 / 4, spyCurrentValue = 900,
           gain = 90, spyGain = 0, difference = 90\<rparr>]"
  by (simp add: breakdown_eval)

section \<open>The engines always return\<close>

lemma depositLoop_total: "\<exists>m'. depositLoop spyPrices deps c m = Inr m'"
proof (induction deps arbitrary: c m)
  case Nil
  then show ?case by simp
next
  case (Cons deposit rest)
  obtain v where v: "getPriceOnOrBefore spyPrices (cf_date deposit) = Inr v"
    using getPriceOnOrBefore_total by blast
  show ?case
  proof (cases v)
    case None
    then show ?thesis by (simp add: v Cons.IH)
  next
    case (Some x)
    then show ?thesis by (simp add: v Let_def Cons.IH)
  qed
qed

lemma tradeSpyShares_total: "\<exists>v. tradeSpyShares spyPrices trade = Inr v"
proof -
  obtain v where v: "getPriceOnOrBefore spyPrices (trade_date trade) = Inr v"
    using getPriceOnOrBefore_total by blast
  show ?thesis
    unfolding tradeSpyShares_def Let_def v by (cases v) simp_all
qed

lemma mapE_total:
  assumes "\<And>x. \<exists>v. f x = Inr v"
  shows "\<exists>vs. mapE f xs = Inr vs \<and> length vs = length xs"
proof (induction xs)
  case Nil
  then show ?case by simp
next
  case (Cons x xs)
  obtain v where v: "f x = Inr v" using assms by blast
  from Cons obtain vs where vs: "mapE f xs = Inr vs" "length vs = length xs" by blast
  show ?case by (simp add: v vs)
qed

lemma prepare_total:
  "\<exists>m ch. depositLoop spyPrices (sort_key cf_date (filter (\<lambda>cf. cf_type cf = Deposit) cashFlows))
             0 Map.empty = Inr m
     \<and> mapE (tradeSpyShares spyPrices) (sort_key trade_date trades) = Inr ch
     \<and> length ch = length trades
     \<and> prepare trades stockPrices spyPrices cashFlows splits =
         Inr \<lparr> sortedTrades = sort_key trade_date trades,
               priceMaps = buildPriceMaps stockPrices splits,
               env_stockPrices = stockPrices,
               env_splits = splits,
               useCashFlowBasis = (0 < foldl (\<lambda>sum cf. sum + cf_amount cf) 0 cashFlows),
               sortedCashFlows = sort_key cf_date cashFlows,
               sortedDeposits = sort_key cf_date (filter (\<lambda>cf. cf_type cf = Deposit) cashFlows),
               depositSpySharesByDate = m,
               useDepositBasis = (0 < length (filter (\<lambda>cf. cf_type cf = Deposit) cashFlows)),
               tradeSpySharesChange = ch \<rparr>"
proof -
  obtain m where m: "depositLoop spyPrices
      (sort_key cf_date (filter (\<lambda>cf. cf_type cf = Deposit) cashFlows)) 0 Map.empty = Inr m"
    using depositLoop_total by blast
  obtain ch where ch: "mapE (tradeSpyShares spyPrices) (sort_key trade_date trades) = Inr ch"
    "length ch = length (sort_key trade_date trades)"
    using mapE_total[of "tradeSpyShares spyPrices", OF tradeSpyShares_total] by blast
  show ?thesis
    using m ch by (simp add: prepare_def Let_def)
qed


lemma portfolioValueLoop_total: "\<exists>v. portfolioValueLoop env d held acc = Inr v"
proof (induction held arbitrary: acc)
  case Nil
  then show ?case by simp
next
  case (Cons a held)
  obtain ticker shares where a: "a = (ticker, shares)" by (cases a)
  obtain r where r: "getUnadjustedPriceOnOrBefore
        (case env_stockPrices env ticker of None \<Rightarrow> [] | Some ps \<Rightarrow> ps)
        (case env_splits env ticker of None \<Rightarrow> [] | Some ss \<Rightarrow> ss) d = Inr r"
    using getUnadjustedPriceOnOrBefore_total by blast
  show ?case
    using Cons.IH by (auto simp: a r Let_def split: option.splits)
qed






section \<open>The cursor of the day loop\<close>

lemma sorted_filter_take:
  "sorted (map key xs) \<Longrightarrow>
   filter (\<lambda>x. key x \<le> d) xs = take (length (filter (\<lambda>x. key x \<le> d) xs)) xs"
  for key :: "'a \<Rightarrow> 'k::linorder"
proof (induction xs)
  case Nil
  then show ?case by simp
next
  case (Cons x xs)
  show ?case
  proof (cases "key x \<le> d")
    case True
    then show ?thesis using Cons by simp
  next
    case False
    then have "\<forall>y \<in> set xs. \<not> key y \<le> d" using Cons.prems by auto
    then have "filter (\<lambda>x. key x \<le> d) xs = []" by (simp add: filter_empty_conv)
    then show ?thesis using False by simp
  qed
qed

lemma sorted_nth_le_iff:
  fixes key :: "'a \<Rightarrow> 'k::linorder"
  assumes "sorted (map key xs)" "i < length xs"
  shows "(key (xs ! i) \<le> d) = (i < length (filter (\<lambda>x. key x \<le> d) xs))"
proof -
  define n where "n = length (filter (\<lambda>x. key x \<le> d) xs)"
  have ft: "filter (\<lambda>x. key x \<le> d) xs = take n xs"
    unfolding n_def by (rule sorted_filter_take[OF assms(1)])
  have nle: "n \<le> length xs" by (simp add: n_def)
  have "length (filter (\<lambda>x. key x \<le> d) (take n xs @ drop n xs)) = n"
    by (simp add: n_def)
  moreover have "filter (\<lambda>x. key x \<le> d) (take n xs) = take n xs"
    unfolding ft[symmetric] by simp
  ultimately have "length (filter (\<lambda>x. key x \<le> d) (drop n xs)) = 0"
    using nle unfolding filter_append by simp
  then have none: "\<forall>y \<in> set (drop n xs). \<not> key y \<le> d"
    by (simp add: filter_empty_conv)
  show ?thesis
  proof
    assume le: "key (xs ! i) \<le> d"
    show "i < length (filter (\<lambda>x. key x \<le> d) xs)"
    proof (rule ccontr)
      assume "\<not> i < length (filter (\<lambda>x. key x \<le> d) xs)"
      then have "n \<le> i" by (simp add: n_def)
      then have "xs ! i = drop n xs ! (i - n)" "i - n < length (drop n xs)"
        using assms(2) by simp_all
      then have "xs ! i \<in> set (drop n xs)" by (metis nth_mem)
      then show False using none le by blast
    qed
  next
    assume "i < length (filter (\<lambda>x. key x \<le> d) xs)"
    then have "i < n" by (simp add: n_def)
    then have "take n xs ! i = xs ! i" "i < length (take n xs)" using assms(2) by simp_all
    then have "xs ! i \<in> set (take n xs)" by (metis nth_mem)
    then have "xs ! i \<in> set (filter (\<lambda>x. key x \<le> d) xs)" unfolding ft .
    then show "key (xs ! i) \<le> d" by simp
  qed
qed

lemma tradesThrough_le: "tradesThrough ts d \<le> length ts"
  by (simp add: tradesThrough_def)

lemma tradesThrough_mono: "d \<le> d' \<Longrightarrow> tradesThrough ts d \<le> tradesThrough ts d'"
proof (induction ts)
  case Nil
  then show ?case by (simp add: tradesThrough_def)
next
  case (Cons t ts)
  then show ?case by (auto simp: tradesThrough_def)
qed

lemma processTrades_cursor:
  "sorted (map trade_date (sortedTrades env)) \<Longrightarrow>
   length (tradeSpySharesChange env) = length (sortedTrades env) \<Longrightarrow>
   cursorInv env st \<Longrightarrow> tradeIndex st \<le> tradesThrough (sortedTrades env) d \<Longrightarrow>
   \<exists>st'. processTrades env d st = Inr st' \<and> cursorInv env st'
       \<and> tradeIndex st' = tradesThrough (sortedTrades env) d
       \<and> dataPoints st' = dataPoints st"
proof (induction env d st rule: processTrades.induct)
  case (1 env currentDate st)
  let ?ts = "sortedTrades env"
  let ?i = "tradeIndex st"
  let ?n = "tradesThrough ?ts currentDate"
  note srt = "1.prems"(1) and len = "1.prems"(2) and inv = "1.prems"(3) and le = "1.prems"(4)
  show ?case
  proof (cases "?i < length ?ts \<and> trade_date (?ts ! ?i) \<le> currentDate")
    case False
    have "?i = ?n"
    proof (rule ccontr)
      assume "?i \<noteq> ?n"
      then have lt: "?i < ?n" using le by simp
      then have il: "?i < length ?ts" using tradesThrough_le[of ?ts currentDate] by simp
      from sorted_nth_le_iff[OF srt il, of currentDate] lt
      have "trade_date (?ts ! ?i) \<le> currentDate" by (simp add: tradesThrough_def)
      then show False using False il by simp
    qed
    then show ?thesis
      using False inv by (subst processTrades.simps) auto
  next
    case True
    define st1 where "st1 = applyTrade (?ts ! ?i) st"
    define st2 where "st2 = st1 \<lparr> tradeBasedSpyShares :=
          tradeBasedSpyShares st1 + tradeSpySharesChange env ! ?i,
        tradeIndex := Suc ?i \<rparr>"
    have n: "numAt (tradeSpySharesChange env) ?i = Inr (tradeSpySharesChange env ! ?i)"
      using True len by (simp add: numAt_def)
    have step: "processTrades env currentDate st = processTrades env currentDate st2"
      using True n by (subst processTrades.simps) (simp add: Let_def st1_def st2_def)
    have lt: "?i < ?n"
      using sorted_nth_le_iff[OF srt, of ?i currentDate] True by (simp add: tradesThrough_def)
    have f1: "tradeCostBasis st1 = tradeCostBasis st + signedAmount (?ts ! ?i)"
      "tradeBasedSpyShares st1 = tradeBasedSpyShares st" "dataPoints st1 = dataPoints st"
      by (simp_all add: st1_def applyTrade_def Let_def signedAmount_def)
    have inv2: "cursorInv env st2"
      using inv True len
      by (simp add: cursorInv_def st2_def f1 take_Suc_conv_app_nth)
    have idx2: "tradeIndex st2 \<le> ?n" using lt by (simp add: st2_def)
    have "\<exists>st'. processTrades env currentDate st2 = Inr st' \<and> cursorInv env st'
       \<and> tradeIndex st' = ?n \<and> dataPoints st' = dataPoints st2"
      using inv2 idx2 True srt len unfolding st2_def st1_def
      by (intro "1.IH") auto
    moreover have "dataPoints st2 = dataPoints st" by (simp add: st2_def f1)
    ultimately show ?thesis using step by simp
  qed
qed

lemma processDay_cursor:
  assumes "sorted (map trade_date (sortedTrades env))"
    "length (tradeSpySharesChange env) = length (sortedTrades env)"
    "cursorInv env st" "tradeIndex st \<le> tradesThrough (sortedTrades env) (sp_date p)"
  shows "\<exists>st'. processDay env st p = Inr st' \<and> cursorInv env st'
       \<and> tradeIndex st' = tradesThrough (sortedTrades env) (sp_date p)
       \<and> map pointKey (dataPoints st')
           = map pointKey (dataPoints st) @ map (dayKey env) (filter (\<lambda>p. 0 < costBasisOf env (sp_date p)) [p])"
proof -
  from processTrades_cursor[OF assms] obtain st1 where st1:
    "processTrades env (sp_date p) st = Inr st1" "cursorInv env st1"
    "tradeIndex st1 = tradesThrough (sortedTrades env) (sp_date p)"
    "dataPoints st1 = dataPoints st" by blast
  obtain pv where pv: "portfolioValueLoop env (sp_date p) (sharesPerTicker st1) 0 = Inr pv"
    using portfolioValueLoop_total by blast
  have cb: "dayCostBasis env (sp_date p) st1 = costBasisOf env (sp_date p)"
    using st1(2,3) by (simp add: dayCostBasis_def costBasisOf_def cursorInv_def)
  have cs: "dayCounterfactualSpyShares env (sp_date p) st1 = counterfactualSharesOf env (sp_date p)"
    using st1(2,3) by (simp add: dayCounterfactualSpyShares_def counterfactualSharesOf_def cursorInv_def)
  show ?thesis
  proof (cases "0 < costBasisOf env (sp_date p)")
    case True
    then show ?thesis
      using st1 by (simp add: processDay_def Let_def pv cb cs cursorInv_def pointKey_def dayKey_def)
  next
    case False
    then show ?thesis
      using st1 by (simp add: processDay_def Let_def pv cb cs)
  qed
qed

lemma dayLoop_cursor:
  assumes "sorted (map trade_date (sortedTrades env))"
    "length (tradeSpySharesChange env) = length (sortedTrades env)"
  shows "sorted (map sp_date days) \<Longrightarrow> cursorInv env st \<Longrightarrow>
     (\<forall>p \<in> set days. tradeIndex st \<le> tradesThrough (sortedTrades env) (sp_date p)) \<Longrightarrow>
     \<exists>st'. dayLoop env days st = Inr st'
       \<and> map pointKey (dataPoints st')
           = map pointKey (dataPoints st)
             @ map (dayKey env) (filter (\<lambda>p. 0 < costBasisOf env (sp_date p)) days)"
proof (induction days arbitrary: st)
  case Nil
  then show ?case by simp
next
  case (Cons p days)
  from processDay_cursor[OF assms Cons.prems(2), of p] Cons.prems(3) obtain st1 where st1:
    "processDay env st p = Inr st1" "cursorInv env st1"
    "tradeIndex st1 = tradesThrough (sortedTrades env) (sp_date p)"
    "map pointKey (dataPoints st1)
       = map pointKey (dataPoints st) @ map (dayKey env) (filter (\<lambda>p. 0 < costBasisOf env (sp_date p)) [p])"
    by auto
  have later: "\<forall>q \<in> set days. tradeIndex st1 \<le> tradesThrough (sortedTrades env) (sp_date q)"
    using Cons.prems(1) st1(3) by (auto intro: tradesThrough_mono)
  have "sorted (map sp_date days)" using Cons.prems(1) by simp
  from Cons.IH[OF this st1(2) later] obtain st' where
    "dayLoop env days st1 = Inr st'"
    "map pointKey (dataPoints st') = map pointKey (dataPoints st1)
        @ map (dayKey env) (filter (\<lambda>p. 0 < costBasisOf env (sp_date p)) days)" by blast
  then show ?case using st1(1,4) by simp
qed

section \<open>The emitted days\<close>

lemma foldl_plus:
  "foldl (\<lambda>sum x. sum + f x) a xs = a + sum_list (map f xs)" for a :: real
  by (induction xs arbitrary: a) simp_all

lemma sum_list_insort_key:
  "sum_list (map f (filter P (insort_key k x xs)))
     = (if P x then f x else 0) + sum_list (map f (filter P xs))" for f :: "'a \<Rightarrow> real"
  by (induction xs) simp_all

lemma sum_list_sort_key:
  "sum_list (map f (filter P (sort_key k xs))) = sum_list (map f (filter P xs))"
  for f :: "'a \<Rightarrow> real"
  by (induction xs) (simp_all add: sum_list_insort_key)

lemma prepare_env:
  obtains env where
    "prepare trades stockPrices spyPrices cashFlows splits = Inr env"
    "sortedTrades env = sort_key trade_date trades"
    "length (tradeSpySharesChange env) = length (sortedTrades env)"
    "useCashFlowBasis env = (0 < sum_list (map cf_amount cashFlows))"
    "sortedCashFlows env = sort_key cf_date cashFlows"
    "useDepositBasis env = (Deposit \<in> set (map cf_type cashFlows))"
    "sortedDeposits env = sort_key cf_date (filter (\<lambda>cf. cf_type cf = Deposit) cashFlows)"
    "depositLoop spyPrices (sortedDeposits env) 0 Map.empty = Inr (depositSpySharesByDate env)"
    "mapE (tradeSpyShares spyPrices) (sortedTrades env) = Inr (tradeSpySharesChange env)"
proof -
  from prepare_total[of spyPrices cashFlows trades stockPrices splits]
  obtain m ch where p:
    "depositLoop spyPrices (sort_key cf_date (filter (\<lambda>cf. cf_type cf = Deposit) cashFlows))
             0 Map.empty = Inr m"
    "mapE (tradeSpyShares spyPrices) (sort_key trade_date trades) = Inr ch"
    "length ch = length trades"
    "prepare trades stockPrices spyPrices cashFlows splits =
         Inr \<lparr> sortedTrades = sort_key trade_date trades,
               priceMaps = buildPriceMaps stockPrices splits,
               env_stockPrices = stockPrices,
               env_splits = splits,
               useCashFlowBasis = (0 < foldl (\<lambda>sum cf. sum + cf_amount cf) 0 cashFlows),
               sortedCashFlows = sort_key cf_date cashFlows,
               sortedDeposits = sort_key cf_date (filter (\<lambda>cf. cf_type cf = Deposit) cashFlows),
               depositSpySharesByDate = m,
               useDepositBasis = (0 < length (filter (\<lambda>cf. cf_type cf = Deposit) cashFlows)),
               tradeSpySharesChange = ch \<rparr>"
    by blast
  have dep: "(filter (\<lambda>cf. cf_type cf = Deposit) cashFlows \<noteq> [])
      = (Deposit \<in> cf_type ` set cashFlows)"
    by (simp add: filter_empty_conv image_iff) metis
  show ?thesis
    by (rule that[OF p(4)]) (simp_all add: p(1,2,3) foldl_plus dep)
qed

lemma costBasisOf_prepared:
  assumes "sortedTrades env = sort_key trade_date trades"
    "useCashFlowBasis env = (0 < sum_list (map cf_amount cashFlows))"
    "sortedCashFlows env = sort_key cf_date cashFlows"
  shows "costBasisOf env d = costBasisOn trades cashFlows d"
proof -
  have srt: "sorted (map trade_date (sort_key trade_date trades))" by (rule sorted_sort_key)
  have "take (tradesThrough (sort_key trade_date trades) d) (sort_key trade_date trades)
      = filter (\<lambda>t. trade_date t \<le> d) (sort_key trade_date trades)"
    unfolding tradesThrough_def by (rule sorted_filter_take[OF srt, symmetric])
  then show ?thesis
    by (simp add: costBasisOf_def costBasisOn_def assms foldl_plus sum_list_sort_key)
qed

lemma timeSeries_keys:
  assumes "trades \<noteq> []" "spyPrices \<noteq> []" "sorted (map sp_date spyPrices)"
    "prepare trades stockPrices spyPrices cashFlows splits = Inr env"
    "sortedTrades env = sort_key trade_date trades"
    "length (tradeSpySharesChange env) = length (sortedTrades env)"
  shows "\<exists>pts. calculatePortfolioTimeSeries trades stockPrices spyPrices cashFlows splits = Inr pts
      \<and> map pointKey pts
          = map (dayKey env) (filter (\<lambda>p. 0 < costBasisOf env (sp_date p)) spyPrices)"
proof -
  have srt: "sorted (map trade_date (sortedTrades env))"
    unfolding assms(5) by (rule sorted_sort_key)
  have inv: "cursorInv env initialState" by (simp add: cursorInv_def initialState_def)
  have idx: "\<forall>p \<in> set spyPrices. tradeIndex initialState \<le> tradesThrough (sortedTrades env) (sp_date p)"
    by (simp add: initialState_def)
  from dayLoop_cursor[OF srt assms(6) assms(3) inv idx] obtain st' where
    "dayLoop env spyPrices initialState = Inr st'"
    "map pointKey (dataPoints st')
       = map pointKey (dataPoints initialState)
         @ map (dayKey env) (filter (\<lambda>p. 0 < costBasisOf env (sp_date p)) spyPrices)" by blast
  then show ?thesis
    using assms(1,2) by (simp add: calculatePortfolioTimeSeries_def assms(4) initialState_def)
qed

text \<open>
  C2. With trades and an index series ascending by date, the engine returns one data
  point for each entry of the index series whose day has a strictly positive cost basis
  and none for the others, in the order of the series: the emitted dates are ascending,
  each is a date of the index series, and each point carries the cost basis of its day.
\<close>

theorem emitted_days:
  assumes "trades \<noteq> []" and "spyPrices \<noteq> []" and "sorted (map sp_date spyPrices)"
  shows "\<exists>pts. calculatePortfolioTimeSeries trades stockPrices spyPrices cashFlows splits = Inr pts
      \<and> map dp_date pts
          = map sp_date (filter (\<lambda>p. 0 < costBasisOn trades cashFlows (sp_date p)) spyPrices)
      \<and> map costBasis pts
          = map (\<lambda>p. round2 (costBasisOn trades cashFlows (sp_date p)))
              (filter (\<lambda>p. 0 < costBasisOn trades cashFlows (sp_date p)) spyPrices)
      \<and> sorted (map dp_date pts)
      \<and> set (map dp_date pts) \<subseteq> set (map sp_date spyPrices)"
proof -
  obtain env where env:
    "prepare trades stockPrices spyPrices cashFlows splits = Inr env"
    "sortedTrades env = sort_key trade_date trades"
    "length (tradeSpySharesChange env) = length (sortedTrades env)"
    "useCashFlowBasis env = (0 < sum_list (map cf_amount cashFlows))"
    "sortedCashFlows env = sort_key cf_date cashFlows"
    by (rule prepare_env)
  let ?days = "filter (\<lambda>p. 0 < costBasisOn trades cashFlows (sp_date p)) spyPrices"
  have cb: "\<And>d. costBasisOf env d = costBasisOn trades cashFlows d"
    by (rule costBasisOf_prepared[OF env(2,4,5)])
  from timeSeries_keys[OF assms env(1,2,3)] obtain pts where pts:
    "calculatePortfolioTimeSeries trades stockPrices spyPrices cashFlows splits = Inr pts"
    "map pointKey pts = map (dayKey env) ?days"
    unfolding cb by blast
  have "map dp_date pts = map fst (map pointKey pts)"
    by (simp add: pointKey_def)
  then have dates: "map dp_date pts = map sp_date ?days"
    unfolding pts(2) by (simp add: dayKey_def)
  have "map costBasis pts = map (\<lambda>k. snd (snd k)) (map pointKey pts)"
    by (simp add: pointKey_def)
  then have costs: "map costBasis pts
      = map (\<lambda>p. round2 (costBasisOn trades cashFlows (sp_date p))) ?days"
    unfolding pts(2) by (simp add: dayKey_def cb)
  have "sorted (map sp_date ?days)"
    using assms(3) by (simp add: sorted_filter)
  then have srt: "sorted (map dp_date pts)" unfolding dates .
  have sub: "set (map dp_date pts) \<subseteq> set (map sp_date spyPrices)"
    unfolding dates by auto
  show ?thesis
    using pts(1) dates costs srt sub by blast
qed

theorem emitted_days_witness:
  "\<exists>pts. calculatePortfolioTimeSeries
       [\<lparr>trade_id = ''a1'', trade_ticker = ''AAPL'', trade_date = ''2023-01-02'', trade_shares = 10,
         trade_price = Some 130, trade_type = Buy\<rparr>]
       [''AAPL'' \<mapsto> [\<lparr>sp_date = ''2023-01-02'', sp_price = 130, sp_high = None\<rparr>]]
       [\<lparr>sp_date = ''2022-12-30'', sp_price = 379, sp_high = None\<rparr>,
        \<lparr>sp_date = ''2023-01-02'', sp_price = 380, sp_high = None\<rparr>,
        \<lparr>sp_date = ''2023-01-03'', sp_price = 382, sp_high = None\<rparr>]
       [] Map.empty = Inr pts
     \<and> map dp_date pts = [''2023-01-02'', ''2023-01-03'']
     \<and> map costBasis pts = [1300, 1300]"
proof -
  define T where "T =
       [\<lparr>trade_id = ''a1'', trade_ticker = ''AAPL'', trade_date = ''2023-01-02'', trade_shares = 10,
         trade_price = Some 130, trade_type = Buy\<rparr>]"
  define SPY where "SPY =
       [\<lparr>sp_date = ''2022-12-30'', sp_price = 379, sp_high = None\<rparr>,
        \<lparr>sp_date = ''2023-01-02'', sp_price = 380, sp_high = None\<rparr>,
        \<lparr>sp_date = ''2023-01-03'', sp_price = 382, sp_high = None\<rparr>]"
  have h1: "T \<noteq> []" by (simp add: T_def)
  have h2: "SPY \<noteq> []" by (simp add: SPY_def)
  have h3: "sorted (map sp_date SPY)" by (simp add: SPY_def)
  have d: "map sp_date (filter (\<lambda>p. 0 < costBasisOn T [] (sp_date p)) SPY)
      = [''2023-01-02'', ''2023-01-03'']"
    by (simp add: T_def SPY_def costBasisOn_def signedAmount_def tradeAmountOf_def)
  have c: "map (\<lambda>p. round2 (costBasisOn T [] (sp_date p)))
        (filter (\<lambda>p. 0 < costBasisOn T [] (sp_date p)) SPY) = [1300, 1300]"
    by (simp add: T_def SPY_def costBasisOn_def signedAmount_def tradeAmountOf_def
        round2_def mathRound_def)
  define SP where "SP = [''AAPL'' \<mapsto> [\<lparr>sp_date = ''2023-01-02'', sp_price = 130, sp_high = None\<rparr>]]"
  from emitted_days[OF h1 h2 h3, of SP "[]" Map.empty] obtain pts where pts:
    "calculatePortfolioTimeSeries T SP SPY [] Map.empty = Inr pts"
    "map dp_date pts = map sp_date (filter (\<lambda>p. 0 < costBasisOn T [] (sp_date p)) SPY)"
    "map costBasis pts = map (\<lambda>p. round2 (costBasisOn T [] (sp_date p)))
        (filter (\<lambda>p. 0 < costBasisOn T [] (sp_date p)) SPY)"
    by blast
  have "calculatePortfolioTimeSeries T SP SPY [] Map.empty = Inr pts
     \<and> map dp_date pts = [''2023-01-02'', ''2023-01-03'']
     \<and> map costBasis pts = [1300, 1300]"
    using pts(1) pts(2)[unfolded d] pts(3)[unfolded c] by (intro conjI)
  then show ?thesis unfolding T_def SPY_def SP_def by (rule exI)
qed


section \<open>The counterfactual share count\<close>

lemma depositShares_unpriced:
  "\<not> pricedDay spyPrices (cf_date x) \<Longrightarrow> depositShares spyPrices x = 0"
  by (auto simp: pricedDay_def depositShares_def split: option.splits)

lemma sharesThrough_Cons:
  "sharesThrough spyPrices (a # rest) d
     = (if cf_date a \<le> d then depositShares spyPrices a else 0) + sharesThrough spyPrices rest d"
  by (simp add: sharesThrough_def)

lemma depositLoop_step_priced:
  assumes "sorted (map sp_date spyPrices)" "pricedDay spyPrices (cf_date a)"
  shows "depositLoop spyPrices (a # rest) c m0
     = depositLoop spyPrices rest (c + depositShares spyPrices a)
         (m0(cf_date a \<mapsto> c + depositShares spyPrices a))"
proof -
  from assms(2) obtain v where v: "onOrBeforeSpec spyPrices (cf_date a) = Some v" "v \<noteq> 0"
    by (auto simp: pricedDay_def split: option.splits)
  have "getPriceOnOrBefore spyPrices (cf_date a) = Inr (Some v)"
    using getPriceOnOrBefore_sorted[OF assms(1)] v(1) by simp
  then show ?thesis
    using v by (simp add: depositShares_def Let_def)
qed

lemma depositLoop_step_unpriced:
  assumes "sorted (map sp_date spyPrices)" "\<not> pricedDay spyPrices (cf_date a)"
  shows "depositLoop spyPrices (a # rest) c m0 = depositLoop spyPrices rest c m0"
proof -
  have g: "getPriceOnOrBefore spyPrices (cf_date a) = Inr (onOrBeforeSpec spyPrices (cf_date a))"
    by (rule getPriceOnOrBefore_sorted[OF assms(1)])
  show ?thesis
    using assms(2) by (cases "onOrBeforeSpec spyPrices (cf_date a)") (simp_all add: g pricedDay_def)
qed

lemma depositLoop_spec:
  assumes "sorted (map sp_date spyPrices)"
  shows "sorted (map cf_date deps) \<Longrightarrow>
     depositLoop spyPrices deps c m0 = Inr (depositMapSpec spyPrices deps c m0)"
proof (induction deps arbitrary: c m0)
  case Nil
  have "depositMapSpec spyPrices [] c m0 = m0"
    by (rule ext) (simp add: depositMapSpec_def)
  then show ?case by simp
next
  case (Cons a rest)
  have srt: "sorted (map cf_date rest)" and ge: "\<forall>x \<in> set rest. cf_date a \<le> cf_date x"
    using Cons.prems by simp_all
  show ?case
  proof (cases "pricedDay spyPrices (cf_date a)")
    case True
    define q where "q = depositShares spyPrices a"
    have "depositMapSpec spyPrices rest (c + q) (m0(cf_date a \<mapsto> c + q))
        = depositMapSpec spyPrices (a # rest) c m0"
    proof (rule ext)
      fix d
      show "depositMapSpec spyPrices rest (c + q) (m0(cf_date a \<mapsto> c + q)) d
        = depositMapSpec spyPrices (a # rest) c m0 d"
      proof (cases "pricedDay spyPrices d \<and> d \<in> set (map cf_date rest)")
        case in_rest: True
        then have "cf_date a \<le> d" using ge by auto
        then show ?thesis
          using in_rest by (simp add: depositMapSpec_def sharesThrough_Cons q_def)
      next
        case not_rest: False
        show ?thesis
        proof (cases "d = cf_date a")
          case eq: True
          have "\<forall>x \<in> set rest. \<not> cf_date x \<le> d"
          proof (intro ballI notI)
            fix x assume x: "x \<in> set rest" "cf_date x \<le> d"
            then have "cf_date a \<le> cf_date x" using ge by blast
            then have "cf_date x = d" using x(2) eq by simp
            then have "d \<in> set (map cf_date rest)" using x(1) by auto
            then show False using not_rest True eq by simp
          qed
          then have "filter (\<lambda>x. cf_date x \<le> d) rest = []" by (simp add: filter_empty_conv)
          then have "sharesThrough spyPrices rest d = 0" by (simp add: sharesThrough_def)
          then show ?thesis
            using not_rest True eq by (simp add: depositMapSpec_def sharesThrough_Cons q_def)
        next
          case False
          then show ?thesis
            using not_rest by (auto simp: depositMapSpec_def)
        qed
      qed
    qed
    then show ?thesis
      using Cons.IH[OF srt, of "c + q" "m0(cf_date a \<mapsto> c + q)"]
      by (simp only: depositLoop_step_priced[OF assms True] q_def)
  next
    case False
    have "depositMapSpec spyPrices rest c m0 = depositMapSpec spyPrices (a # rest) c m0"
    proof (rule ext)
      fix d
      show "depositMapSpec spyPrices rest c m0 d = depositMapSpec spyPrices (a # rest) c m0 d"
        using False
        by (auto simp: depositMapSpec_def sharesThrough_Cons depositShares_unpriced)
    qed
    then show ?thesis
      using Cons.IH[OF srt, of c m0]
      by (simp only: depositLoop_step_unpriced[OF assms False])
  qed
qed

lemma scanValue_snoc:
  "scanValue spyPrices deps (pre @ [x])
     = (if pricedDay spyPrices (cf_date x) then sharesThrough spyPrices deps (cf_date x)
        else scanValue spyPrices deps pre)"
  by (simp add: scanValue_def)

lemma depositScan_spec:
  "set suf \<subseteq> set deps \<Longrightarrow>
   depositScan (depositMapSpec spyPrices deps 0 Map.empty) d suf (scanValue spyPrices deps pre)
     = scanValue spyPrices deps (pre @ takeWhile (\<lambda>x. cf_date x \<le> d) suf)"
proof (induction suf arbitrary: pre)
  case Nil
  then show ?case by simp
next
  case (Cons x suf)
  show ?case
  proof (cases "cf_date x \<le> d")
    case False
    then have "d < cf_date x" by simp
    then show ?thesis using False by (simp add: leD)
  next
    case True
    have xin: "cf_date x \<in> set (map cf_date deps)" using Cons.prems by auto
    have acc: "(case depositMapSpec spyPrices deps 0 Map.empty (cf_date x) of
                  Some v \<Rightarrow> v | None \<Rightarrow> scanValue spyPrices deps pre)
        = scanValue spyPrices deps (pre @ [x])"
      using xin by (simp add: depositMapSpec_def scanValue_snoc)
    have sub: "set suf \<subseteq> set deps" using Cons.prems by simp
    from Cons.IH[OF sub, of "pre @ [x]"] show ?thesis
      using True by (simp add: acc leD)
  qed
qed

lemma sum_list_map_zero:
  "(\<forall>x \<in> set xs. f x = 0) \<Longrightarrow> sum_list (map f xs) = 0" for f :: "'a \<Rightarrow> real"
  by (induction xs) simp_all

lemma sum_list_filter_cong0:
  "(\<forall>x \<in> set xs. P x \<noteq> Q x \<longrightarrow> f x = 0) \<Longrightarrow>
   sum_list (map f (filter P xs)) = sum_list (map f (filter Q xs))" for f :: "'a \<Rightarrow> real"
  by (induction xs) auto

lemma sum_list_filter_mono:
  "(\<forall>x \<in> set xs. 0 \<le> f x) \<Longrightarrow> (\<forall>x \<in> set xs. P x \<longrightarrow> Q x) \<Longrightarrow>
   sum_list (map f (filter P xs)) \<le> sum_list (map f (filter Q xs))" for f :: "'a \<Rightarrow> real"
  by (induction xs) (auto intro: add_increasing)

lemma sorted_filter_takeWhile:
  "sorted (map key xs) \<Longrightarrow>
   takeWhile (\<lambda>x. key x \<le> d) xs = filter (\<lambda>x. key x \<le> d) xs"
  for key :: "'a \<Rightarrow> 'k::linorder"
proof (induction xs)
  case Nil
  then show ?case by simp
next
  case (Cons x xs)
  show ?case
  proof (cases "key x \<le> d")
    case True
    then show ?thesis using Cons by simp
  next
    case False
    then have "\<forall>y \<in> set xs. \<not> key y \<le> d" using Cons.prems by auto
    then have "filter (\<lambda>x. key x \<le> d) xs = []" by (simp add: filter_empty_conv)
    then show ?thesis using False by simp
  qed
qed

lemma scanValue_through:
  assumes "sorted (map cf_date deps)"
  shows "scanValue spyPrices deps (filter (\<lambda>x. cf_date x \<le> d) deps) = sharesThrough spyPrices deps d"
proof -
  let ?pre = "filter (\<lambda>x. cf_date x \<le> d) deps"
  let ?E = "filter (\<lambda>x. pricedDay spyPrices (cf_date x)) ?pre"
  show ?thesis
  proof (cases "?E = []")
    case True
    then have "\<forall>x \<in> set ?pre. \<not> pricedDay spyPrices (cf_date x)"
      by (simp add: filter_empty_conv)
    then have "\<forall>x \<in> set ?pre. depositShares spyPrices x = 0"
      by (simp add: depositShares_unpriced)
    then have "sum_list (map (depositShares spyPrices) ?pre) = 0"
      by (rule sum_list_map_zero)
    then show ?thesis using True by (simp add: scanValue_def sharesThrough_def)
  next
    case False
    define D where "D = cf_date (last ?E)"
    have lastE: "last ?E \<in> set ?E" using False by (rule last_in_set)
    then have Dle: "D \<le> d" by (simp add: D_def)
    have srtE: "sorted (map cf_date ?E)"
      using assms by (simp add: sorted_filter)
    have top: "\<forall>y \<in> set ?E. cf_date y \<le> D"
    proof
      fix y assume "y \<in> set ?E"
      then have "cf_date y \<in> set (map cf_date ?E)" unfolding set_map by (rule imageI)
      from sorted_le_last[OF srtE this] show "cf_date y \<le> D"
        using False by (simp add: D_def last_map)
    qed
    have "\<forall>x \<in> set deps. (cf_date x \<le> D) \<noteq> (cf_date x \<le> d) \<longrightarrow> depositShares spyPrices x = 0"
    proof (intro ballI impI)
      fix x assume x: "x \<in> set deps" "(cf_date x \<le> D) \<noteq> (cf_date x \<le> d)"
      then have xd: "cf_date x \<le> d" "\<not> cf_date x \<le> D" using Dle by auto
      have "\<not> pricedDay spyPrices (cf_date x)"
      proof
        assume "pricedDay spyPrices (cf_date x)"
        then have "x \<in> set ?E" using x(1) xd(1) by simp
        then show False using top xd(2) by blast
      qed
      then show "depositShares spyPrices x = 0" by (rule depositShares_unpriced)
    qed
    from sum_list_filter_cong0[OF this] have "sharesThrough spyPrices deps D = sharesThrough spyPrices deps d"
      by (simp add: sharesThrough_def)
    then show ?thesis using False by (simp add: scanValue_def D_def)
  qed
qed

lemma depositScan_closed:
  assumes "sorted (map sp_date spyPrices)" "sorted (map cf_date deps)"
    "depositLoop spyPrices deps 0 Map.empty = Inr m"
  shows "depositScan m d deps 0 = sharesThrough spyPrices deps d"
proof -
  have m: "m = depositMapSpec spyPrices deps 0 Map.empty"
    using depositLoop_spec[OF assms(1,2), of 0 Map.empty] assms(3) by simp
  have z: "scanValue spyPrices deps [] = 0" by (simp add: scanValue_def)
  have "depositScan m d deps 0
      = scanValue spyPrices deps ([] @ takeWhile (\<lambda>x. cf_date x \<le> d) deps)"
    unfolding m using depositScan_spec[of deps deps spyPrices d "[]"] by (simp add: z)
  also have "\<dots> = scanValue spyPrices deps (filter (\<lambda>x. cf_date x \<le> d) deps)"
    by (simp add: sorted_filter_takeWhile[OF assms(2)])
  also have "\<dots> = sharesThrough spyPrices deps d" by (rule scanValue_through[OF assms(2)])
  finally show ?thesis .
qed

end
